theory Spec2Isabelle
  imports Main "HOL-Library.AList"
begin

section \<open>JavaScript values\<close>

text \<open>
  Configuration data is JSON-like. \<open>JObj ps\<close> is a plain object: \<open>ps\<close> lists its own
  enumerable properties in the order of their creation (keys pairwise distinct), and
  its prototype is \<open>Object.prototype\<close>. \<open>JProto p ps\<close> is an object with the own
  properties \<open>ps\<close> whose prototype has been replaced by \<open>p\<close>, which only the
  \<open>__proto__\<close> setter does. An array is the list of its elements. \<open>JNative\<close> is a
  built-in of the realm; the code meets one when it reads a member that an object or an
  array inherits. Numbers are modelled as integers: the engine only subtracts and
  compares precedences and timestamps, and \<open>NaN\<close> is outside the model. The realm is
  the initial one: no built-in has been given further properties.
\<close>

datatype native =
    ObjectPrototype
  | ArrayPrototype
  | ObjectConstructor
  | ArrayConstructor
  | ObjectMethod string
  | ArrayMethod string

datatype jsval =
    JUndefined
  | JNull
  | JBool bool
  | JNum int
  | JStr string
  | JArr "jsval list"
  | JObj "(string \<times> jsval) list"
  | JProto jsval "(string \<times> jsval) list"
  | JNative native

type_synonym props = "(string \<times> jsval) list"

text \<open>
  \<open>OutsideModel\<close> marks a step whose outcome the model does not determine: a lookup
  through a replaced prototype or in a built-in, a write into a built-in, and a write
  that would give an array a hole or a named property.
\<close>

datatype error =
    TypeError
  | CannotResolvePackage string
  | CannotFindFile string
  | FailedToParse string
  | NoTsconfigFound string
  | OutsideModel

text \<open>\<open>ToBoolean\<close>, as used by \<open>value && ...\<close> and \<open>path || '__root__'\<close>.\<close>

fun truthy :: "jsval \<Rightarrow> bool" where
  "truthy JUndefined = False"
| "truthy JNull = False"
| "truthy (JBool b) = b"
| "truthy (JNum n) = (n \<noteq> 0)"
| "truthy (JStr s) = (s \<noteq> [])"
| "truthy (JArr xs) = True"
| "truthy (JObj ps) = True"
| "truthy (JProto p ps) = True"
| "truthy (JNative n) = True"

text \<open>
  \<open>typeof v === 'object' && v !== null\<close>; of the built-ins only the two prototype
  objects have the type \<open>'object'\<close>, the others are functions.
\<close>

fun is_object :: "jsval \<Rightarrow> bool" where
  "is_object (JArr xs) = True"
| "is_object (JObj ps) = True"
| "is_object (JProto p ps) = True"
| "is_object (JNative n) = (n = ObjectPrototype \<or> n = ArrayPrototype)"
| "is_object v = False"

text \<open>
  The member names of \<open>Object.prototype\<close> and of \<open>Array.prototype\<close> (ECMAScript 2023).
  All are methods, except \<open>constructor\<close> and the accessor \<open>__proto__\<close>.
\<close>

definition object_prototype_names :: "string list" where
  "object_prototype_names =
     [''constructor'', ''__defineGetter__'', ''__defineSetter__'', ''hasOwnProperty'',
      ''__lookupGetter__'', ''__lookupSetter__'', ''isPrototypeOf'', ''propertyIsEnumerable'',
      ''toString'', ''valueOf'', ''__proto__'', ''toLocaleString'']"

definition array_prototype_names :: "string list" where
  "array_prototype_names =
     [''constructor'', ''at'', ''concat'', ''copyWithin'', ''fill'', ''find'', ''findIndex'',
      ''findLast'', ''findLastIndex'', ''lastIndexOf'', ''pop'', ''push'', ''reverse'', ''shift'',
      ''unshift'', ''slice'', ''sort'', ''splice'', ''includes'', ''indexOf'', ''join'', ''keys'',
      ''entries'', ''values'', ''forEach'', ''filter'', ''flat'', ''flatMap'', ''map'', ''every'',
      ''some'', ''reduce'', ''reduceRight'', ''toLocaleString'', ''toString'', ''toReversed'',
      ''toSorted'', ''toSpliced'', ''with'']"

text \<open>The value of a member that a plain object, or an array, inherits.\<close>

definition object_member :: "string \<Rightarrow> jsval" where
  "object_member key =
     (if key = ''__proto__'' then JNative ObjectPrototype
      else if key = ''constructor'' then JNative ObjectConstructor
      else if key \<in> set object_prototype_names then JNative (ObjectMethod key)
      else JUndefined)"

definition array_member :: "string \<Rightarrow> jsval" where
  "array_member key =
     (if key = ''__proto__'' then JNative ArrayPrototype
      else if key = ''constructor'' then JNative ArrayConstructor
      else if key \<in> set array_prototype_names then JNative (ArrayMethod key)
      else if key \<in> set object_prototype_names then JNative (ObjectMethod key)
      else JUndefined)"

text \<open>
  An array index is the canonical decimal numeral of a number below \<open>2^32 - 1\<close>;
  \<open>index_key\<close> is the numeral of an index.
\<close>

definition array_index :: "string \<Rightarrow> int option" where
  "array_index key =
     (if key \<noteq> [] \<and> list_all (\<lambda>c. 48 \<le> (of_char c :: int) \<and> (of_char c :: int) \<le> 57) key \<and>
         (key = ''0'' \<or> hd key \<noteq> CHR ''0'')
      then (let n = foldl (\<lambda>a c. 10 * a + ((of_char c :: int) - 48)) 0 key
            in if n < 4294967295 then Some n else None)
      else None)"

fun index_key :: "nat \<Rightarrow> string" where
  "index_key n =
     (if n < 10 then [char_of (48 + n)]
      else index_key (n div 10) @ [char_of (48 + n mod 10)])"

declare index_key.simps [simp del]

text \<open>
  The order in which an object lists its own properties: the array indices in
  ascending numeric order, then the other keys in the order of their creation.
\<close>

definition js_entries :: "props \<Rightarrow> props" where
  "js_entries ps =
     sort_key (\<lambda>e. the (array_index (fst e))) (filter (\<lambda>e. array_index (fst e) \<noteq> None) ps) @
     filter (\<lambda>e. array_index (fst e) = None) ps"

fun own_props :: "jsval \<Rightarrow> props" where
  "own_props (JObj ps) = ps"
| "own_props (JProto p ps) = ps"
| "own_props v = []"

text \<open>\<open>Object.keys(v)\<close> for a non-null object \<open>v\<close>.\<close>

fun object_keys :: "jsval \<Rightarrow> string list" where
  "object_keys (JObj ps) = map fst (js_entries ps)"
| "object_keys (JProto p ps) = map fst (js_entries ps)"
| "object_keys (JArr xs) = map index_key [0..<length xs]"
| "object_keys v = []"

text \<open>
  \<open>key in v\<close>: a \<open>TypeError\<close> when \<open>v\<close> is a primitive, \<open>null\<close> or \<open>undefined\<close>;
  on an object or an array the own properties and the inherited members. Below a
  replaced prototype only the own properties are decided, unless the prototype is
  \<open>null\<close>.
\<close>

fun has_property :: "jsval \<Rightarrow> string \<Rightarrow> error + bool" where
  "has_property (JObj ps) key =
     Inr (key \<in> set (map fst ps) \<or> key \<in> set object_prototype_names)"
| "has_property (JArr xs) key =
     Inr ((case array_index key of Some i \<Rightarrow> i < int (length xs) | None \<Rightarrow> False) \<or>
          key = ''length'' \<or> key \<in> set array_prototype_names \<or>
          key \<in> set object_prototype_names)"
| "has_property (JProto p ps) key =
     (if key \<in> set (map fst ps) then Inr True
      else if p = JNull then Inr False
      else Inl OutsideModel)"
| "has_property (JNative n) key = Inl OutsideModel"
| "has_property v key = Inl TypeError"

text \<open>\<open>v[key]\<close> for an object or array \<open>v\<close> with \<open>key in v\<close>.\<close>

fun get_property :: "jsval \<Rightarrow> string \<Rightarrow> jsval" where
  "get_property (JObj ps) key =
     (case map_of ps key of Some v \<Rightarrow> v | None \<Rightarrow> object_member key)"
| "get_property (JArr xs) key =
     (case array_index key of
        Some i \<Rightarrow> if i < int (length xs) then xs ! nat i else JUndefined
      | None \<Rightarrow> if key = ''length'' then JNum (int (length xs)) else array_member key)"
| "get_property (JProto p ps) key =
     (case map_of ps key of Some v \<Rightarrow> v | None \<Rightarrow> JUndefined)"
| "get_property v key = JUndefined"

text \<open>
  \<open>obj[key] = v\<close> in strict code. On an object an own property is overwritten in
  place and a new one is appended, except under the key \<open>__proto__\<close>, which reaches the
  setter inherited from \<open>Object.prototype\<close>: the setter ignores a value that is neither
  an object nor \<open>null\<close>, and otherwise makes the value the prototype of the object. On
  an array an element is overwritten or appended. On a primitive, \<open>null\<close> or
  \<open>undefined\<close> the assignment throws.
\<close>

fun set_prototype :: "props \<Rightarrow> jsval \<Rightarrow> jsval" where
  "set_prototype ps JNull = JProto JNull ps"
| "set_prototype ps (JObj q) = JProto (JObj q) ps"
| "set_prototype ps (JProto p q) = JProto (JProto p q) ps"
| "set_prototype ps (JArr xs) = JProto (JArr xs) ps"
| "set_prototype ps (JNative n) =
     (if n = ObjectPrototype then JObj ps else JProto (JNative n) ps)"
| "set_prototype ps v = JObj ps"

fun plain_prototype :: "jsval \<Rightarrow> bool" where
  "plain_prototype JNull = True"
| "plain_prototype (JObj q) = True"
| "plain_prototype (JArr xs) = True"
| "plain_prototype (JNative n) = (n = ArrayPrototype)"
| "plain_prototype v = False"

fun set_property :: "jsval \<Rightarrow> string \<Rightarrow> jsval \<Rightarrow> error + jsval" where
  "set_property (JObj ps) key v =
     (if key \<in> set (map fst ps) then Inr (JObj (AList.update key v ps))
      else if key = ''__proto__'' then Inr (set_prototype ps v)
      else Inr (JObj (ps @ [(key, v)])))"
| "set_property (JProto p ps) key v =
     (if key \<in> set (map fst ps) then Inr (JProto p (AList.update key v ps))
      else if key \<noteq> ''__proto__'' \<and> plain_prototype p then Inr (JProto p (ps @ [(key, v)]))
      else Inl OutsideModel)"
| "set_property (JArr xs) key v =
     (case array_index key of
        Some i \<Rightarrow>
          if i < int (length xs) then Inr (JArr (xs[nat i := v]))
          else if i = int (length xs) then Inr (JArr (xs @ [v]))
          else Inl OutsideModel
      | None \<Rightarrow> Inl OutsideModel)"
| "set_property (JNative n) key v = Inl OutsideModel"
| "set_property obj key v = Inl TypeError"

section \<open>Explanations and the Explained wrapper\<close>

record explanation =
  source :: string
  exp_value :: jsval
  reason :: string
  precedence :: int
  location :: "string option"
  won :: bool
  timestamp :: int

text \<open>
  The ledger \<open>_explanations\<close> is a \<open>Map\<close>: an association list in insertion order,
  where \<open>set\<close> on a present key replaces the entry in place.
\<close>

type_synonym ledger = "(string \<times> explanation list) list"

record explained =
  e_value :: jsval
  e_explanations :: ledger

definition root_path :: string where
  "root_path = ''__root__''"

text \<open>
  \<open>explain(path?, options?)\<close>; the flag is \<open>options?.onlyWinners\<close>. An absent or
  empty path reads the root entry.
\<close>

definition explain :: "explained \<Rightarrow> string option \<Rightarrow> bool \<Rightarrow> explanation list" where
  "explain e path onlyWinners =
     (let key = (case path of None \<Rightarrow> root_path | Some p \<Rightarrow> if p = [] then root_path else p);
          explanations = (case map_of (e_explanations e) key of Some es \<Rightarrow> es | None \<Rightarrow> [])
      in if onlyWinners then filter won explanations else explanations)"

definition addExplanation :: "string \<Rightarrow> explanation \<Rightarrow> explained \<Rightarrow> explained" where
  "addExplanation path ex e =
     (let existing = (case map_of (e_explanations e) path of Some es \<Rightarrow> es | None \<Rightarrow> [])
      in e\<lparr>e_explanations := AList.update path (existing @ [ex]) (e_explanations e)\<rparr>)"

definition setExplanations :: "string \<Rightarrow> explanation list \<Rightarrow> explained \<Rightarrow> explained" where
  "setExplanations path es e = e\<lparr>e_explanations := AList.update path es (e_explanations e)\<rparr>"

definition getPaths :: "explained \<Rightarrow> string list" where
  "getPaths e = map fst (e_explanations e)"

text \<open>
  \<open>Explained.from\<close>; the last argument is the reading of \<open>Date.now()\<close> taken by the
  call.
\<close>

definition explained_from ::
  "jsval \<Rightarrow> string \<Rightarrow> string \<Rightarrow> int \<Rightarrow> string option \<Rightarrow> int \<Rightarrow> explained" where
  "explained_from v src rsn prec loc now =
     addExplanation root_path
       \<lparr>source = src, exp_value = v, reason = rsn, precedence = prec, location = loc,
        won = True, timestamp = now\<rparr>
       \<lparr>e_value = v, e_explanations = []\<rparr>"

text \<open>\<open>toJSON\<close>; the argument is the reading of \<open>Date.now()\<close>.\<close>

record metadata =
  sourcesCount :: nat
  resolvedAt :: int

record explanation_result =
  r_value :: jsval
  r_explanations :: ledger
  r_metadata :: metadata

definition toJSON :: "explained \<Rightarrow> int \<Rightarrow> explanation_result" where
  "toJSON e now =
     \<lparr>r_value = e_value e,
      r_explanations = e_explanations e,
      r_metadata = \<lparr>sourcesCount = length (remdups (map fst (e_explanations e))),
                    resolvedAt = now\<rparr>\<rparr>"

section \<open>The merge engine\<close>

text \<open>\<open>allKeys.add(key)\<close> on a \<open>Set\<close> kept in insertion order.\<close>

definition add_key :: "string \<Rightarrow> string list \<Rightarrow> string list" where
  "add_key key ks = (if key \<in> set ks then ks else ks @ [key])"

definition allKeys :: "explained list \<Rightarrow> string list" where
  "allKeys explaineds =
     fold (\<lambda>e ks. if is_object (e_value e) then fold add_key (object_keys (e_value e)) ks else ks)
       explaineds []"

text \<open>The inner loop of \<open>merge\<close>: the candidates for one key, in source order.\<close>

fun explanationsForKey :: "string \<Rightarrow> explained list \<Rightarrow> error + explanation list" where
  "explanationsForKey key [] = Inr []"
| "explanationsForKey key (e # rest) =
     (if truthy (e_value e) then
        (case has_property (e_value e) key of
           Inl err \<Rightarrow> Inl err
         | Inr present \<Rightarrow>
             (case explanationsForKey key rest of
                Inl err \<Rightarrow> Inl err
              | Inr later \<Rightarrow>
                  if present then
                    (case explain e None False of
                       [] \<Rightarrow> Inr later
                     | rootExp # others \<Rightarrow>
                         Inr (\<lparr>source = source rootExp,
                               exp_value = get_property (e_value e) key,
                               reason = reason rootExp,
                               precedence = precedence rootExp,
                               location = location rootExp,
                               won = False,
                               timestamp = timestamp rootExp\<rparr> # later))
                  else Inr later))
      else explanationsForKey key rest)"

text \<open>
  The comparator handed to \<open>Array.prototype.sort\<close>, and the stable sort it induces
  (the comparator is a consistent total preorder on integers).
\<close>

definition compare_explanations :: "explanation \<Rightarrow> explanation \<Rightarrow> int" where
  "compare_explanations a b =
     (if precedence b \<noteq> precedence a then precedence b - precedence a
      else timestamp a - timestamp b)"

fun insort_explanation :: "explanation \<Rightarrow> explanation list \<Rightarrow> explanation list" where
  "insort_explanation x [] = [x]"
| "insort_explanation x (y # ys) =
     (if compare_explanations x y \<le> 0 then x # y # ys else y # insort_explanation x ys)"

definition sort_explanations :: "explanation list \<Rightarrow> explanation list" where
  "sort_explanations es = foldr insort_explanation es []"

text \<open>
  The outer loop of \<open>merge\<close> over \<open>allKeys\<close>; \<open>mergedValue\<close> starts as \<open>{}\<close>.
\<close>

fun merge_loop ::
  "string list \<Rightarrow> explained list \<Rightarrow> jsval \<times> ledger \<Rightarrow> error + jsval \<times> ledger" where
  "merge_loop [] explaineds acc = Inr acc"
| "merge_loop (key # keys) explaineds (mergedValue, allExplanations) =
     (case explanationsForKey key explaineds of
        Inl err \<Rightarrow> Inl err
      | Inr cands \<Rightarrow>
          (case sort_explanations cands of
             [] \<Rightarrow> merge_loop keys explaineds (mergedValue, allExplanations)
           | first # others \<Rightarrow>
               (case set_property mergedValue key (exp_value first) of
                  Inl err \<Rightarrow> Inl err
                | Inr mergedValue' \<Rightarrow>
                    merge_loop keys explaineds
                      (mergedValue',
                       AList.update key (first\<lparr>won := True\<rparr> # others) allExplanations))))"

definition merge :: "explained list \<Rightarrow> error + explained" where
  "merge explaineds =
     (case merge_loop (allKeys explaineds) explaineds (JObj [], []) of
        Inl err \<Rightarrow> Inl err
      | Inr (mergedValue, allExplanations) \<Rightarrow>
          Inr \<lparr>e_value = mergedValue, e_explanations = allExplanations\<rparr>)"

text \<open>
  The guard and the record of the inner loop, one source at a time: a source competes
  for a key when its value is truthy, \<open>key in value\<close> holds, and its ledger has a root
  entry;
  it then contributes the record below (\<open>explanationsForKey_filter\<close> relates the two
  to the loop).
\<close>

definition competes :: "explained \<Rightarrow> string \<Rightarrow> bool" where
  "competes e key =
     (truthy (e_value e) \<and> has_property (e_value e) key = Inr True \<and>
      explain e None False \<noteq> [])"

definition candidate :: "explained \<Rightarrow> string \<Rightarrow> explanation" where
  "candidate e key =
     (let rootExp = hd (explain e None False)
      in \<lparr>source = source rootExp, exp_value = get_property (e_value e) key,
          reason = reason rootExp, precedence = precedence rootExp,
          location = location rootExp, won = False, timestamp = timestamp rootExp\<rparr>)"

text \<open>The sorted candidates of a key, split into head and tail, when there are any.\<close>

definition resolved :: "string \<Rightarrow> explained list \<Rightarrow> (explanation \<times> explanation list) option" where
  "resolved key es =
     (case explanationsForKey key es of
        Inl err \<Rightarrow> None
      | Inr cs \<Rightarrow>
          (case sort_explanations cs of [] \<Rightarrow> None | first # others \<Rightarrow> Some (first, others)))"

text \<open>
  The inputs of the union-of-keys property: a wrapper around a plain object; a wrapper
  whose ledger has a root entry (\<open>Explained.from\<close> records one, the bare constructor
  does not); a wrapper that has a root entry and holds the key as an own property; and
  a wrapper none of whose own keys is a member name of \<open>Object.prototype\<close>.
\<close>

definition holds_object :: "explained \<Rightarrow> bool" where
  "holds_object e = (case e_value e of JObj ps \<Rightarrow> True | _ \<Rightarrow> False)"

definition has_root :: "explained \<Rightarrow> bool" where
  "has_root e = (explain e None False \<noteq> [])"

definition contributes :: "explained \<Rightarrow> string \<Rightarrow> bool" where
  "contributes e key = (has_root e \<and> key \<in> set (object_keys (e_value e)))"

definition ordinary_keys :: "explained \<Rightarrow> bool" where
  "ordinary_keys e = (\<forall>key\<in>set (object_keys (e_value e)). key \<notin> set object_prototype_names)"

text \<open>An object that owns no property named \<open>__proto__\<close>.\<close>

definition proto_free :: "jsval \<Rightarrow> bool" where
  "proto_free obj =
     (case obj of
        JObj ps \<Rightarrow> ''__proto__'' \<notin> fst ` set ps
      | JProto p ps \<Rightarrow> ''__proto__'' \<notin> fst ` set ps
      | _ \<Rightarrow> False)"

text \<open>The keys of the merged value, when the merge returns.\<close>

definition merged_keys :: "error + explained \<Rightarrow> string list option" where
  "merged_keys r = (case r of Inl err \<Rightarrow> None | Inr m \<Rightarrow> Some (object_keys (e_value m)))"

text \<open>
  The root timestamps of the inputs in the order they are supplied, and the inputs
  whose root timestamps never decrease along that order.
\<close>

definition root_timestamps :: "explained list \<Rightarrow> int list" where
  "root_timestamps es =
     map (\<lambda>e. timestamp (hd (explain e None False)))
       (filter (\<lambda>e. explain e None False \<noteq> []) es)"

definition registered_in_order :: "explained list \<Rightarrow> bool" where
  "registered_in_order es = sorted (root_timestamps es)"

text \<open>The winning source and value a merge result records under a path.\<close>

definition winners :: "error + explained \<Rightarrow> string \<Rightarrow> (string \<times> jsval) list" where
  "winners r path =
     (case r of
        Inl err \<Rightarrow> []
      | Inr m \<Rightarrow> map (\<lambda>x. (source x, exp_value x)) (explain m (Some path) True))"

text \<open>
  The reading of \<open>sourcesCount\<close> given by its declaration (\<open>Total number of sources
  considered\<close>): the distinct source names recorded anywhere in the ledger.
\<close>

definition recorded_sources :: "explained \<Rightarrow> string list" where
  "recorded_sources e = remdups (map source (concat (map snd (e_explanations e))))"

subsection \<open>The configuration resolver\<close>

text \<open>
  \<open>Source\<close> and \<open>ConfigSource\<close>: the data of a source is a partial configuration
  object, given by its own properties.
\<close>

record config_meta =
  src_name :: string
  src_precedence :: int
  src_reason :: "string option"
  src_location :: "string option"

record config_source =
  cs_data :: props
  cs_source :: config_meta

text \<open>\<open>addSource\<close> appends to the registered sources.\<close>

definition addSource :: "props \<Rightarrow> config_meta \<Rightarrow> config_source list \<Rightarrow> config_source list" where
  "addSource d s sources = sources @ [\<lparr>cs_data = d, cs_source = s\<rparr>]"

text \<open>
  \<open>[...sources].sort((a, b) => a.source.precedence - b.source.precedence)\<close>: the
  stable sort by ascending precedence.
\<close>

definition sortedSources :: "config_source list \<Rightarrow> config_source list" where
  "sortedSources sources = sort_key (\<lambda>s. src_precedence (cs_source s)) sources"

text \<open>\<open>source.reason || `From ${source.name}`\<close>.\<close>

definition reason_or_default :: "config_meta \<Rightarrow> string" where
  "reason_or_default s =
     (case src_reason s of
        None \<Rightarrow> ''From '' @ src_name s
      | Some r \<Rightarrow> if r = [] then ''From '' @ src_name s else r)"

text \<open>
  The callback of \<open>sortedSources.map\<close>, and the map itself; \<open>clock i\<close> is the reading of
  \<open>Date.now()\<close> taken by the call of \<open>Explained.from\<close> for the element at index \<open>i\<close>.
\<close>

definition explained_source :: "int \<Rightarrow> config_source \<Rightarrow> explained" where
  "explained_source now s =
     explained_from (JObj (cs_data s)) (src_name (cs_source s)) (reason_or_default (cs_source s))
       (src_precedence (cs_source s)) (src_location (cs_source s)) now"

fun explainedSources :: "(nat \<Rightarrow> int) \<Rightarrow> nat \<Rightarrow> config_source list \<Rightarrow> explained list" where
  "explainedSources clock i [] = []"
| "explainedSources clock i (s # ss) =
     explained_source (clock i) s # explainedSources clock (Suc i) ss"

text \<open>\<open>ConfigResolver.resolve\<close> over the registered sources.\<close>

definition resolve :: "(nat \<Rightarrow> int) \<Rightarrow> config_source list \<Rightarrow> error + explained" where
  "resolve clock sources =
     (if sources = [] then Inr \<lparr>e_value = JObj [], e_explanations = []\<rparr>
      else merge (explainedSources clock 0 (sortedSources sources)))"

text \<open>\<open>key in data\<close> for a registered source.\<close>

definition in_data :: "config_source \<Rightarrow> string \<Rightarrow> bool" where
  "in_data s key = (has_property (JObj (cs_data s)) key = Inr True)"

section \<open>The tsconfig adapter\<close>

subsection \<open>Documents and the host environment\<close>

text \<open>
  A loaded document is whatever \<open>JSON.parse\<close> returned: the loader does not check it
  against the declared type \<open>TSConfig\<close>.
\<close>

record tsconfig_resolution =
  res_path :: string
  res_config :: jsval
  res_precedence :: int

text \<open>
  What the adapter asks of Node: \<open>require.resolve(request, {paths: [baseDir]})\<close>
  (\<open>None\<close> when it throws), \<open>path.resolve\<close>, \<open>fs.existsSync\<close>,
  \<open>path.dirname\<close>, and the reading of a file followed by comment stripping and
  \<open>JSON.parse\<close> (\<open>None\<close> when any of these throws).
\<close>

record host =
  require_resolve :: "string \<Rightarrow> string \<Rightarrow> string option"
  path_resolve :: "string \<Rightarrow> string \<Rightarrow> string"
  existsSync :: "string \<Rightarrow> bool"
  dirname :: "string \<Rightarrow> string"
  read_json :: "string \<Rightarrow> jsval option"

definition startsWith :: "string \<Rightarrow> string \<Rightarrow> bool" where
  "startsWith s p = (take (length p) s = p)"

definition resolveTSConfigPath :: "host \<Rightarrow> string \<Rightarrow> string \<Rightarrow> error + string" where
  "resolveTSConfigPath h configPath baseDir =
     (if \<not> startsWith configPath ''.'' \<and> \<not> startsWith configPath ''/'' then
        (case require_resolve h configPath baseDir of
           Some p \<Rightarrow> Inr p
         | None \<Rightarrow>
             (case require_resolve h (configPath @ ''/tsconfig.json'') baseDir of
                Some p \<Rightarrow> Inr p
              | None \<Rightarrow> Inl (CannotResolvePackage configPath)))
      else
        (let fullPath = path_resolve h baseDir configPath
         in if existsSync h fullPath then Inr fullPath
            else if existsSync h (fullPath @ ''.json'') then Inr (fullPath @ ''.json'')
            else Inl (CannotFindFile configPath)))"

text \<open>
  \<open>resolveTSConfigPath\<close> as the walk calls it on an element of \<open>extends\<close>: on a value
  that is not a string, \<open>configPath.startsWith\<close> throws a \<open>TypeError\<close>.
\<close>

fun resolve_reference :: "host \<Rightarrow> jsval \<Rightarrow> string \<Rightarrow> error + string" where
  "resolve_reference h (JStr s) baseDir = resolveTSConfigPath h s baseDir"
| "resolve_reference h v baseDir = Inl TypeError"

definition loadTSConfig :: "host \<Rightarrow> string \<Rightarrow> error + jsval" where
  "loadTSConfig h configPath =
     (case read_json h configPath of
        Some config \<Rightarrow> Inr config
      | None \<Rightarrow> Inl (FailedToParse configPath))"

subsection \<open>The extends chain\<close>

text \<open>
  \<open>config.extends\<close>: a \<open>TypeError\<close> on \<open>null\<close>; on an object the own property or
  \<open>undefined\<close>, no prototype having a member of this name; \<open>undefined\<close> on an array
  and on a primitive.
\<close>

fun config_extends :: "jsval \<Rightarrow> error + jsval" where
  "config_extends JNull = Inl TypeError"
| "config_extends JUndefined = Inl TypeError"
| "config_extends (JObj ps) = Inr (get_property (JObj ps) ''extends'')"
| "config_extends (JProto p ps) =
     (if ''extends'' \<in> set (map fst ps) \<or> p = JNull
      then Inr (get_property (JProto p ps) ''extends'')
      else Inl OutsideModel)"
| "config_extends v = Inr JUndefined"

text \<open>
  \<open>if (config.extends)\<close> followed by the \<open>Array.isArray\<close> test, applied to the value of
  \<open>config.extends\<close>: a falsy value yields no parent, an array its elements, any other
  value itself.
\<close>

fun extendsArray :: "jsval \<Rightarrow> jsval list" where
  "extendsArray (JArr xs) = xs"
| "extendsArray (JNative n) = (if n = ArrayPrototype then [] else [JNative n])"
| "extendsArray v = (if truthy v then [v] else [])"

text \<open>The precedence handed to the parent at \<open>index\<close> of an array of \<open>len\<close> parents.\<close>

definition parent_precedence :: "int \<Rightarrow> nat \<Rightarrow> nat \<Rightarrow> int" where
  "parent_precedence prec len index = prec - (int len - int index)"

text \<open>
  \<open>resolveTSConfigChain\<close> recurses as deep as the extends graph leads, so the model
  carries fuel: \<open>None\<close> means the fuel ran out before the walk returned. A result is
  the error thrown, or the chain together with the visited set as the call left it.
  \<open>extends_forEach\<close> is the \<open>forEach\<close> over the parents, with the recursive call
  passed in.
\<close>

type_synonym chain_result = "error + tsconfig_resolution list \<times> string set"

fun extends_forEach ::
  "(jsval \<Rightarrow> int \<Rightarrow> string set \<Rightarrow> chain_result option) \<Rightarrow> int \<Rightarrow> nat \<Rightarrow> nat \<Rightarrow>
   jsval list \<Rightarrow> string set \<Rightarrow> tsconfig_resolution list \<Rightarrow> chain_result option" where
  "extends_forEach recur prec len index [] visited chain = Some (Inr (chain, visited))"
| "extends_forEach recur prec len index (extendPath # rest) visited chain =
     (case recur extendPath (parent_precedence prec len index) visited of
        None \<Rightarrow> None
      | Some (Inl err) \<Rightarrow> Some (Inl err)
      | Some (Inr (extendedChain, visited')) \<Rightarrow>
          extends_forEach recur prec len (Suc index) rest visited' (chain @ extendedChain))"

fun resolveTSConfigChain ::
  "host \<Rightarrow> nat \<Rightarrow> string \<Rightarrow> string \<Rightarrow> int \<Rightarrow> string set \<Rightarrow> chain_result option" where
  "resolveTSConfigChain h 0 configPath baseDir prec visited = None"
| "resolveTSConfigChain h (Suc fuel) configPath baseDir prec visited =
     (case resolveTSConfigPath h configPath baseDir of
        Inl err \<Rightarrow> Some (Inl err)
      | Inr fullPath \<Rightarrow>
          if fullPath \<in> visited then Some (Inr ([], visited))
          else
            (case loadTSConfig h fullPath of
               Inl err \<Rightarrow> Some (Inl err)
             | Inr config \<Rightarrow>
                 (case config_extends config of
                    Inl err \<Rightarrow> Some (Inl err)
                  | Inr ext \<Rightarrow>
                      (case extends_forEach
                              (\<lambda>extendPath p v.
                                 case extendPath of
                                   JStr s \<Rightarrow> resolveTSConfigChain h fuel s (dirname h fullPath) p v
                                 | _ \<Rightarrow> Some (Inl TypeError))
                              prec (length (extendsArray ext)) 0
                              (extendsArray ext) (insert fullPath visited) [] of
                         None \<Rightarrow> None
                       | Some (Inl err) \<Rightarrow> Some (Inl err)
                       | Some (Inr (chain, visited')) \<Rightarrow>
                           Some (Inr (chain @ [\<lparr>res_path = fullPath, res_config = config,
                                                res_precedence = prec\<rparr>], visited'))))))"

subsection \<open>Flattening and unflattening\<close>

text \<open>
  \<open>Object.assign(target, src)\<close>, given the own properties of \<open>src\<close> in the order it
  lists them.
\<close>

fun object_assign :: "jsval \<Rightarrow> props \<Rightarrow> error + jsval" where
  "object_assign target [] = Inr target"
| "object_assign target ((key, v) # rest) =
     (case set_property target key v of
        Inl err \<Rightarrow> Inl err
      | Inr target' \<Rightarrow> object_assign target' rest)"

text \<open>
  The test \<open>obj[key] !== null && typeof obj[key] === 'object' && !Array.isArray(obj[key])\<close>.
\<close>

fun nested :: "jsval \<Rightarrow> bool" where
  "nested (JObj ps) = True"
| "nested (JProto p ps) = True"
| "nested (JNative n) = (n = ObjectPrototype)"
| "nested v = False"

text \<open>
  \<open>flattenObject\<close>, called on the own properties of an object; \<open>flatten_loop\<close> is its
  \<open>for ... in\<close> loop, restricted to own properties by the \<open>hasOwnProperty\<close> test, with
  the \<open>result\<close> built so far.
\<close>

function flattenObject :: "props \<Rightarrow> string \<Rightarrow> error + jsval"
and flatten_loop :: "props \<Rightarrow> string \<Rightarrow> jsval \<Rightarrow> error + jsval" where
  "flattenObject obj prefix = flatten_loop (js_entries obj) prefix (JObj [])"
| "flatten_loop [] prefix result = Inr result"
| "flatten_loop ((key, v) # rest) prefix result =
     (let newKey = (if prefix \<noteq> [] then prefix @ ''.'' @ key else key)
      in case (if nested v then
                 (case flattenObject (own_props v) newKey of
                    Inl err \<Rightarrow> Inl err
                  | Inr inner \<Rightarrow> object_assign result (js_entries (own_props inner)))
               else set_property result newKey v) of
           Inl err \<Rightarrow> Inl err
         | Inr result' \<Rightarrow> flatten_loop rest prefix result')"
  by pat_completeness auto

termination
proof (relation "measure (\<lambda>x. case x of
          Inl (obj, prefix) \<Rightarrow> 2 * size_list (size_prod (\<lambda>x. 0) size) obj + 1
        | Inr (entries, prefix, result) \<Rightarrow> 2 * size_list (size_prod (\<lambda>x. 0) size) entries)")
  show "wf (measure (\<lambda>x. case x of
          Inl (obj, prefix) \<Rightarrow> 2 * size_list (size_prod (\<lambda>x. 0) size) obj + 1
        | Inr (entries, prefix, result) \<Rightarrow> 2 * size_list (size_prod (\<lambda>x. 0) size) entries))"
    by simp
next
  fix obj :: props and prefix :: string
  let ?f = "size_prod (\<lambda>x. 0) size :: string \<times> jsval \<Rightarrow> nat"
  have size_insort_key: "size_list ?f (insort_key k x xs) = Suc (?f x + size_list ?f xs)"
    for k :: "string \<times> jsval \<Rightarrow> int" and x xs
    by (induction xs) auto
  have size_sort_key: "size_list ?f (sort_key k xs) = size_list ?f xs"
    for k :: "string \<times> jsval \<Rightarrow> int" and xs
    by (induction xs) (auto simp: size_insort_key)
  have size_partition:
    "size_list ?f (filter P xs) + size_list ?f (filter (\<lambda>x. \<not> P x) xs) = size_list ?f xs"
    for P and xs
    by (induction xs) auto
  have size_js_entries: "size_list ?f (js_entries obj) = size_list ?f obj"
    using size_partition[of "\<lambda>e. array_index (fst e) \<noteq> None" obj]
    by (simp add: js_entries_def size_sort_key)
  show "(Inr (js_entries obj, prefix, JObj []), Inl (obj, prefix)) \<in> measure (\<lambda>x. case x of
          Inl (obj, prefix) \<Rightarrow> 2 * size_list (size_prod (\<lambda>x. 0) size) obj + 1
        | Inr (entries, prefix, result) \<Rightarrow> 2 * size_list (size_prod (\<lambda>x. 0) size) entries)"
    by (simp add: size_js_entries)
next
  fix key v rest prefix result x
  assume "x = (if prefix \<noteq> [] then prefix @ ''.'' @ key else key)" "nested v"
  then show "(Inl (own_props v, x), Inr ((key, v) # rest, prefix, result)) \<in> measure (\<lambda>x. case x of
          Inl (obj, prefix) \<Rightarrow> 2 * size_list (size_prod (\<lambda>x. 0) size) obj + 1
        | Inr (entries, prefix, result) \<Rightarrow> 2 * size_list (size_prod (\<lambda>x. 0) size) entries)"
    by (cases v) auto
next
  fix key v rest prefix result x x2 xa
  show "(Inr (rest, prefix, xa), Inr ((key, v) # rest, prefix, result)) \<in> measure (\<lambda>x. case x of
          Inl (obj, prefix) \<Rightarrow> 2 * size_list (size_prod (\<lambda>x. 0) size) obj + 1
        | Inr (entries, prefix, result) \<Rightarrow> 2 * size_list (size_prod (\<lambda>x. 0) size) entries)"
    by simp
qed

text \<open>\<open>key.split('.')\<close>.\<close>

fun split_on :: "char \<Rightarrow> string \<Rightarrow> string list" where
  "split_on c [] = [[]]"
| "split_on c (x # xs) =
     (if x = c then [] # split_on c xs
      else (case split_on c xs of
              seg # segs \<Rightarrow> (x # seg) # segs
            | [] \<Rightarrow> [[x]]))"

text \<open>
  \<open>current[key]\<close> where \<open>key\<close> is an own property of \<open>current\<close>, and \<open>current\<close> after
  the object held under that property has changed.
\<close>

fun own_child :: "jsval \<Rightarrow> string \<Rightarrow> jsval option" where
  "own_child (JObj ps) key = map_of ps key"
| "own_child (JProto p ps) key = map_of ps key"
| "own_child (JArr xs) key =
     (case array_index key of
        Some i \<Rightarrow> if i < int (length xs) then Some (xs ! nat i) else None
      | None \<Rightarrow> if key = ''length'' then Some (JNum (int (length xs))) else None)"
| "own_child v key = None"

fun replace_child :: "jsval \<Rightarrow> string \<Rightarrow> jsval \<Rightarrow> jsval" where
  "replace_child (JObj ps) key c = JObj (AList.update key c ps)"
| "replace_child (JProto p ps) key c = JProto p (AList.update key c ps)"
| "replace_child (JArr xs) key c =
     (case array_index key of Some i \<Rightarrow> JArr (xs[nat i := c]) | None \<Rightarrow> JArr xs)"
| "replace_child v key c = v"

text \<open>
  The inner loop of \<open>unflattenObject\<close> and the assignment that follows it, as a nested
  update of \<open>current\<close>. Where \<open>keys[i] in current\<close> holds through an inherited member,
  \<open>current\<close> becomes a built-in and the next step looks into it or writes to it. The
  first equation is the source's behaviour on an empty key list, which \<open>split\<close> never
  returns.
\<close>

fun assign_path :: "string list \<Rightarrow> jsval \<Rightarrow> jsval \<Rightarrow> error + jsval" where
  "assign_path [] v current = set_property current ''undefined'' v"
| "assign_path [key] v current = set_property current key v"
| "assign_path (key # keys) v current =
     (case has_property current key of
        Inl err \<Rightarrow> Inl err
      | Inr present \<Rightarrow>
          (case (if present then Inr current else set_property current key (JObj [])) of
             Inl err \<Rightarrow> Inl err
           | Inr current' \<Rightarrow>
               (case own_child current' key of
                  None \<Rightarrow> Inl OutsideModel
                | Some child \<Rightarrow>
                    (case assign_path keys v child of
                       Inl err \<Rightarrow> Inl err
                     | Inr child' \<Rightarrow> Inr (replace_child current' key child')))))"

fun unflatten_loop :: "props \<Rightarrow> jsval \<Rightarrow> error + jsval" where
  "unflatten_loop [] result = Inr result"
| "unflatten_loop ((key, v) # rest) result =
     (case assign_path (split_on CHR ''.'' key) v result of
        Inl err \<Rightarrow> Inl err
      | Inr result' \<Rightarrow> unflatten_loop rest result')"

text \<open>
  The keys a \<open>for ... in\<close> loop over \<open>flat\<close> visits, each with \<open>flat[key]\<close>: the own
  enumerable properties, no standard prototype having an enumerable member.
\<close>

fun for_in_entries :: "jsval \<Rightarrow> error + props" where
  "for_in_entries (JObj ps) = Inr (js_entries ps)"
| "for_in_entries (JProto p ps) = (if p = JNull then Inr (js_entries ps) else Inl OutsideModel)"
| "for_in_entries (JArr xs) = Inr (zip (map index_key [0..<length xs]) xs)"
| "for_in_entries (JStr s) = Inr (zip (map index_key [0..<length s]) (map (\<lambda>c. JStr [c]) s))"
| "for_in_entries v = Inr []"

definition unflattenObject :: "jsval \<Rightarrow> error + jsval" where
  "unflattenObject flat =
     (case for_in_entries flat of
        Inl err \<Rightarrow> Inl err
      | Inr entries \<Rightarrow> unflatten_loop entries (JObj []))"

subsection \<open>Merging a chain\<close>

text \<open>
  \<open>const { extends: _, ...configWithoutExtends } = config\<close>: the own enumerable
  properties of \<open>config\<close> other than \<open>extends\<close>, copied in the order \<open>config\<close> lists
  them.
\<close>

fun configWithoutExtends :: "jsval \<Rightarrow> error + props" where
  "configWithoutExtends JNull = Inl TypeError"
| "configWithoutExtends JUndefined = Inl TypeError"
| "configWithoutExtends (JObj ps) = Inr (filter (\<lambda>e. fst e \<noteq> ''extends'') (js_entries ps))"
| "configWithoutExtends (JProto p ps) = Inr (filter (\<lambda>e. fst e \<noteq> ''extends'') (js_entries ps))"
| "configWithoutExtends (JArr xs) = Inr (zip (map index_key [0..<length xs]) xs)"
| "configWithoutExtends (JStr s) =
     Inr (zip (map index_key [0..<length s]) (map (\<lambda>c. JStr [c]) s))"
| "configWithoutExtends v = Inr []"

text \<open>
  \<open>mergeTSConfigs\<close>. \<open>flatExplained\<close> is the \<open>chain.map\<close>; \<open>clock i\<close> is the reading
  of \<open>Date.now()\<close> taken when the \<open>i\<close>-th document of the chain is wrapped.
  \<open>explainTSConfig\<close> is modelled for \<open>followExtends = true\<close>, its default.
\<close>

fun flatExplained :: "(nat \<Rightarrow> int) \<Rightarrow> nat \<Rightarrow> tsconfig_resolution list \<Rightarrow> error + explained list" where
  "flatExplained clock i [] = Inr []"
| "flatExplained clock i (r # rest) =
     (case configWithoutExtends (res_config r) of
        Inl err \<Rightarrow> Inl err
      | Inr config \<Rightarrow>
          (case flattenObject config [] of
             Inl err \<Rightarrow> Inl err
           | Inr flat \<Rightarrow>
               (case flatExplained clock (Suc i) rest of
                  Inl err \<Rightarrow> Inl err
                | Inr later \<Rightarrow>
                    Inr (explained_from flat (res_path r) (''From '' @ res_path r)
                           (res_precedence r) (Some (res_path r)) (clock i) # later))))"

definition mergeTSConfigs :: "(nat \<Rightarrow> int) \<Rightarrow> tsconfig_resolution list \<Rightarrow> error + explained" where
  "mergeTSConfigs clock chain =
     (case flatExplained clock 0 chain of
        Inl err \<Rightarrow> Inl err
      | Inr sources \<Rightarrow>
          (case merge sources of
             Inl err \<Rightarrow> Inl err
           | Inr mergedFlat \<Rightarrow>
               (case unflattenObject (e_value mergedFlat) of
                  Inl err \<Rightarrow> Inl err
                | Inr unflattened \<Rightarrow>
                    Inr (fold (\<lambda>path result.
                                 let explanations = explain mergedFlat (Some path) False
                                 in if explanations \<noteq> [] then setExplanations path explanations result
                                    else result)
                           (getPaths mergedFlat)
                           \<lparr>e_value = unflattened, e_explanations = []\<rparr>))))"

definition explainTSConfig ::
  "host \<Rightarrow> nat \<Rightarrow> (nat \<Rightarrow> int) \<Rightarrow> string \<Rightarrow> string \<Rightarrow> (error + explained) option" where
  "explainTSConfig h fuel clock configPath baseDir =
     (case resolveTSConfigChain h fuel configPath baseDir 10 {} of
        None \<Rightarrow> None
      | Some (Inl err) \<Rightarrow> Some (Inl err)
      | Some (Inr (chain, visited)) \<Rightarrow>
          if chain = [] then Some (Inl (NoTsconfigFound configPath))
          else Some (mergeTSConfigs clock chain))"

subsection \<open>Notions used to state the properties of the chain\<close>

text \<open>
  The parent references of a loaded document, as the walk meets them. A document is
  well-formed when reading its \<open>extends\<close> does not throw and every parent reference
  is a string.
\<close>

definition config_parents :: "jsval \<Rightarrow> jsval list" where
  "config_parents c = (case config_extends c of Inl err \<Rightarrow> [] | Inr ext \<Rightarrow> extendsArray ext)"

fun is_string :: "jsval \<Rightarrow> bool" where
  "is_string (JStr s) = True"
| "is_string v = False"

definition well_formed :: "jsval \<Rightarrow> bool" where
  "well_formed c \<longleftrightarrow>
     (\<exists>ext. config_extends c = Inr ext) \<and> list_all is_string (config_parents c)"

text \<open>
  A chain returned from a call that started with the set \<open>visited\<close> and ended with
  \<open>vis'\<close>: it lists each location added in between exactly once, every entry has a
  precedence of at most \<open>bound\<close> and holds the document loaded from its location,
  reading \<open>extends\<close> of that document does not throw, and every parent reference of an
  entry resolves to a visited location.
\<close>

definition chain_ok ::
  "host \<Rightarrow> int \<Rightarrow> string set \<Rightarrow> tsconfig_resolution list \<Rightarrow> string set \<Rightarrow> bool" where
  "chain_ok h bound visited ch vis' \<longleftrightarrow>
     visited \<subseteq> vis' \<and> set (map res_path ch) = vis' - visited \<and> distinct (map res_path ch) \<and>
     (\<forall>r\<in>set ch. res_precedence r \<le> bound \<and> read_json h (res_path r) = Some (res_config r) \<and>
        (\<exists>ext. config_extends (res_config r) = Inr ext) \<and>
        (\<forall>q\<in>set (config_parents (res_config r)).
           \<exists>p'\<in>vis'. resolve_reference h q (dirname h (res_path r)) = Inr p'))"

text \<open>
  The locations the walk from an entry reference can reach, and the failures it can
  meet: the entry or a parent reference of a reached document does not resolve, a
  reached location does not load, or reading \<open>extends\<close> of a reached document throws.
  \<open>error_location\<close> is the reference or location an error names.
\<close>

inductive reachable :: "host \<Rightarrow> string \<Rightarrow> string \<Rightarrow> string \<Rightarrow> bool"
  for h :: host and cp :: string and bd :: string where
  entry: "resolveTSConfigPath h cp bd = Inr p \<Longrightarrow> reachable h cp bd p"
| parent: "reachable h cp bd p \<Longrightarrow> read_json h p = Some c \<Longrightarrow>
     q \<in> set (config_parents c) \<Longrightarrow>
     resolve_reference h q (dirname h p) = Inr p' \<Longrightarrow> reachable h cp bd p'"

fun error_location :: "error \<Rightarrow> string option" where
  "error_location (CannotResolvePackage q) = Some q"
| "error_location (CannotFindFile q) = Some q"
| "error_location (FailedToParse p) = Some p"
| "error_location e = None"

definition failure_at :: "host \<Rightarrow> string \<Rightarrow> string \<Rightarrow> error \<Rightarrow> bool" where
  "failure_at h cp bd e \<longleftrightarrow>
     (resolveTSConfigPath h cp bd = Inl e \<and> error_location e = Some cp) \<or>
     (\<exists>p. reachable h cp bd p \<and>
        ((read_json h p = None \<and> e = FailedToParse p) \<or>
         (\<exists>c. read_json h p = Some c \<and>
            (config_extends c = Inl e \<or>
             (\<exists>q\<in>set (config_parents c). resolve_reference h q (dirname h p) = Inl e \<and>
                (case q of JStr s \<Rightarrow> error_location e = Some s | _ \<Rightarrow> e = TypeError))))))"

text \<open>The walk meets only well-formed documents.\<close>

definition well_formed_walk :: "host \<Rightarrow> string \<Rightarrow> string \<Rightarrow> bool" where
  "well_formed_walk h cp bd \<longleftrightarrow>
     (\<forall>p c. reachable h cp bd p \<longrightarrow> read_json h p = Some c \<longrightarrow> well_formed c)"



subsection \<open>Notions used to state the round trip\<close>

text \<open>
  A leaf key has no dot, is not \<open>__proto__\<close> and is no array index; a node key is
  moreover not empty and no member name of \<open>Object.prototype\<close>. A plain document has
  only leaf keys, pairwise distinct within each object; its nested objects are not
  empty and sit under node keys; its leaves are primitives, \<open>null\<close> and arrays.
\<close>

definition leaf_key :: "string \<Rightarrow> bool" where
  "leaf_key k \<longleftrightarrow> CHR ''.'' \<notin> set k \<and> k \<noteq> ''__proto__'' \<and> array_index k = None"







section \<open>Worked scenarios\<close>

text \<open>
  Three sources: defaults \<open>{port: 8080, host: "localhost"}\<close> at precedence 0, env
  \<open>{port: 3000}\<close> at 10 and cli \<open>{port: 5000}\<close> at 20, created at clock readings
  100, 100 and 101.
\<close>

definition scenario_defaults :: explained where
  "scenario_defaults =
     explained_from (JObj [(''port'', JNum 8080), (''host'', JStr ''localhost'')])
       ''defaults'' ''Default configuration'' 0 None 100"

definition scenario_env :: explained where
  "scenario_env =
     explained_from (JObj [(''port'', JNum 3000)]) ''env'' ''Environment variables'' 10 None 100"

definition scenario_cli :: explained where
  "scenario_cli =
     explained_from (JObj [(''port'', JNum 5000)]) ''cli'' ''Command-line arguments'' 20 None 101"

definition scenario_port_cli :: explanation where
  "scenario_port_cli =
     \<lparr>source = ''cli'', exp_value = JNum 5000, reason = ''Command-line arguments'',
      precedence = 20, location = None, won = True, timestamp = 101\<rparr>"

definition scenario_port_env :: explanation where
  "scenario_port_env =
     \<lparr>source = ''env'', exp_value = JNum 3000, reason = ''Environment variables'',
      precedence = 10, location = None, won = False, timestamp = 100\<rparr>"

definition scenario_port_defaults :: explanation where
  "scenario_port_defaults =
     \<lparr>source = ''defaults'', exp_value = JNum 8080, reason = ''Default configuration'',
      precedence = 0, location = None, won = False, timestamp = 100\<rparr>"

definition scenario_port :: "explanation list" where
  "scenario_port = [scenario_port_cli, scenario_port_env, scenario_port_defaults]"

definition scenario_host :: "explanation list" where
  "scenario_host =
     [\<lparr>source = ''defaults'', exp_value = JStr ''localhost'',
       reason = ''Default configuration'', precedence = 0, location = None, won = True,
       timestamp = 100\<rparr>]"

definition scenario_merged :: explained where
  "scenario_merged =
     \<lparr>e_value = JObj [(''port'', JNum 5000), (''host'', JStr ''localhost'')],
      e_explanations = [(''port'', scenario_port), (''host'', scenario_host)]\<rparr>"

text \<open>
  Two sources of equal precedence 5 for the same field, as wrappers. \<open>tie_first\<close>
  carries the later root timestamp: it was created after \<open>tie_second\<close>, with a clock
  tick in between. \<open>tick_first\<close> and \<open>tick_second\<close> are the same two sources
  created within one clock tick.
\<close>

definition tie_first :: explained where
  "tie_first = explained_from (JObj [(''value'', JNum 1)]) ''first'' ''First'' 5 None 2"

definition tie_second :: explained where
  "tie_second = explained_from (JObj [(''value'', JNum 2)]) ''second'' ''Second'' 5 None 1"

definition tick_first :: explained where
  "tick_first = explained_from (JObj [(''value'', JNum 1)]) ''first'' ''First'' 5 None 7"

definition tick_second :: explained where
  "tick_second = explained_from (JObj [(''value'', JNum 2)]) ''second'' ''Second'' 5 None 7"

definition tick_entry :: "explanation list" where
  "tick_entry =
     [\<lparr>source = ''first'', exp_value = JNum 1, reason = ''First'', precedence = 5,
       location = None, won = True, timestamp = 7\<rparr>,
      \<lparr>source = ''second'', exp_value = JNum 2, reason = ''Second'', precedence = 5,
       location = None, won = False, timestamp = 7\<rparr>]"

definition tick_merged :: explained where
  "tick_merged =
     \<lparr>e_value = JObj [(''value'', JNum 1)], e_explanations = [(''value'', tick_entry)]\<rparr>"

text \<open>The same two sources, registered with a resolver in the order first, second.\<close>

definition tie_sources :: "config_source list" where
  "tie_sources =
     addSource [(''value'', JNum 2)]
       \<lparr>src_name = ''second'', src_precedence = 5, src_reason = Some ''Second'',
        src_location = None\<rparr>
       (addSource [(''value'', JNum 1)]
          \<lparr>src_name = ''first'', src_precedence = 5, src_reason = Some ''First'',
           src_location = None\<rparr> [])"

text \<open>
  \<open>new Explained({ debug: true })\<close>: a wrapper built by the constructor alone, whose
  ledger is empty.
\<close>

definition rootless_input :: explained where
  "rootless_input = \<lparr>e_value = JObj [(''debug'', JBool True)], e_explanations = []\<rparr>"

text \<open>A source that owns a property named \<open>constructor\<close>.\<close>

definition own_constructor :: explained where
  "own_constructor =
     explained_from (JObj [(''constructor'', JNum 1)]) ''low'' ''Low'' 0 None 100"

text \<open>A wrapper around the number 5, outside the declared input type of \<open>merge\<close>.\<close>

definition primitive_input :: explained where
  "primitive_input = explained_from (JNum 5) ''bad'' ''Not an object'' 10 None 100"





text \<open>
  A host with a flat directory \<open>/\<close>: the files are the listed absolute paths,
  references have the form \<open>./name\<close>, and no package resolves.
\<close>

definition toy_host :: "(string \<times> jsval) list \<Rightarrow> host" where
  "toy_host files =
     \<lparr>require_resolve = (\<lambda>request baseDir. None),
      path_resolve = (\<lambda>baseDir p. baseDir @ drop 2 p),
      existsSync = (\<lambda>p. p \<in> set (map fst files)),
      dirname = (\<lambda>p. ''/''),
      read_json = map_of files\<rparr>"

text \<open>\<open>a.json\<close> and \<open>b.json\<close> extend each other.\<close>

definition cycle_files :: "(string \<times> jsval) list" where
  "cycle_files =
     [(''/a.json'', JObj [(''extends'', JStr ''./b.json'')]),
      (''/b.json'', JObj [(''extends'', JStr ''./a.json'')])]"



text \<open>A document whose parent does not exist.\<close>

definition broken_files :: "(string \<times> jsval) list" where
  "broken_files =
     [(''/tsconfig.json'', JObj [(''extends'', JStr ''./nonexistent.json'')])]"

text \<open>
  \<open>a.json\<close> extends \<open>n.json\<close>, whose content is \<open>null\<close>, and \<open>missing.json\<close>,
  which does not exist.
\<close>

definition null_files :: "(string \<times> jsval) list" where
  "null_files =
     [(''/a.json'', JObj [(''extends'', JArr [JStr ''./n.json'', JStr ''./missing.json''])]),
      (''/n.json'', JNull)]"

text \<open>The path and precedence of each entry of a returned chain.\<close>

definition chain_summary :: "chain_result option \<Rightarrow> (string \<times> int) list option" where
  "chain_summary r =
     (case r of
        Some (Inr (chain, visited)) \<Rightarrow> Some (map (\<lambda>x. (res_path x, res_precedence x)) chain)
      | _ \<Rightarrow> None)"








section \<open>Properties of the merge engine\<close>

subsection \<open>The inner loop and the sort\<close>

lemma explanationsForKey_filter:
  "explanationsForKey key es = Inr cs \<Longrightarrow>
   cs = map (\<lambda>e. candidate e key) (filter (\<lambda>e. competes e key) es)"
proof (induction es arbitrary: cs)
  case Nil
  then show ?case by simp
next
  case (Cons e es)
  show ?case
  proof (cases "truthy (e_value e)")
    case False
    with Cons show ?thesis by (simp add: competes_def)
  next
    case True
    with Cons.prems obtain present later where
      p: "has_property (e_value e) key = Inr present" and
      l: "explanationsForKey key es = Inr later"
      by (auto split: sum.splits)
    from Cons.IH[OF l]
    have ih: "later = map (\<lambda>e. candidate e key) (filter (\<lambda>e. competes e key) es)" .
    show ?thesis
    proof (cases "present \<and> explain e None False \<noteq> []")
      case False
      with Cons.prems True p l ih show ?thesis
        by (auto simp: competes_def split: list.splits)
    next
      case yes: True
      then obtain r rs where r: "explain e None False = r # rs"
        by (cases "explain e None False") auto
      with Cons.prems True p l ih yes show ?thesis
        by (auto simp: competes_def candidate_def)
    qed
  qed
qed

lemma candidate_not_won [simp]: "\<not> won (candidate e key)"
  by (simp add: candidate_def Let_def)

lemma set_insort_explanation [simp]: "set (insort_explanation x ys) = insert x (set ys)"
  by (induction ys) auto

lemma set_sort_explanations [simp]: "set (sort_explanations es) = set es"
  by (induction es) (auto simp: sort_explanations_def)

lemma sort_explanations_empty [simp]: "sort_explanations [] = []"
  by (simp add: sort_explanations_def)

lemma sort_explanations_Nil [simp]: "sort_explanations es = [] \<longleftrightarrow> es = []"
  by (metis set_sort_explanations set_empty)

lemma compare_trans:
  "compare_explanations a b \<le> 0 \<Longrightarrow> compare_explanations b c \<le> 0 \<Longrightarrow>
   compare_explanations a c \<le> 0"
  by (auto simp: compare_explanations_def split: if_splits)





subsection \<open>The outer loop\<close>

lemma own_props_set_prototype [simp]: "own_props (set_prototype ps v) = ps"
  by (cases v) auto

lemma proto_free_set_prototype [simp]:
  "proto_free (set_prototype ps v) \<longleftrightarrow> ''__proto__'' \<notin> fst ` set ps"
  by (cases v) (auto simp: proto_free_def)

lemma update_fresh: "k \<notin> fst ` set al \<Longrightarrow> AList.update k v al = al @ [(k, v)]"
  by (induction al) auto

lemma set_property_obj:
  "key \<noteq> ''__proto__'' \<Longrightarrow> set_property (JObj ps) key v = Inr (JObj (AList.update key v ps))"
  by (simp add: update_fresh)

lemma set_property_proto:
  "set_property (JProto p ps) key v = Inr obj' \<Longrightarrow> obj' = JProto p (AList.update key v ps)"
  by (auto simp: update_fresh split: if_splits)

lemma keys_update: "fst ` set (AList.update key v ps) = insert key (fst ` set ps)"
  by (induction ps) auto

lemma set_property_own:
  assumes "set_property obj key v = Inr obj'" and "proto_free obj"
  shows "proto_free obj'"
    and "map_of (own_props obj') k =
           (if k = key \<and> key \<noteq> ''__proto__'' then Some v else map_of (own_props obj) k)"
proof -
  from assms(2) consider (obj) ps where "obj = JObj ps" "''__proto__'' \<notin> fst ` set ps"
    | (proto) p ps where "obj = JProto p ps" "''__proto__'' \<notin> fst ` set ps"
    by (auto simp: proto_free_def split: jsval.splits)
  then have "proto_free obj' \<and> map_of (own_props obj') k =
           (if k = key \<and> key \<noteq> ''__proto__'' then Some v else map_of (own_props obj) k)"
  proof cases
    case obj
    show ?thesis
    proof (cases "key = ''__proto__''")
      case True
      with obj assms(1) have "obj' = set_prototype ps v" by (auto simp: image_iff)
      with obj True show ?thesis by simp
    next
      case False
      with obj assms(1) have "obj' = JObj (AList.update key v ps)"
        by (simp add: set_property_obj del: set_property.simps)
      with obj False show ?thesis
        by (simp add: proto_free_def keys_update update_conv')
    qed
  next
    case proto
    from set_property_proto[of p ps key v obj'] assms(1) proto
    have o: "obj' = JProto p (AList.update key v ps)" by simp
    from assms(1) proto have "key \<noteq> ''__proto__''"
      by (auto simp: image_iff split: if_splits)
    with o proto show ?thesis
      by (simp add: proto_free_def keys_update update_conv')
  qed
  then show "proto_free obj'"
    and "map_of (own_props obj') k =
           (if k = key \<and> key \<noteq> ''__proto__'' then Some v else map_of (own_props obj) k)"
    by simp_all
qed

lemma merge_loop_maps:
  "merge_loop keys es (mv, ex) = Inr (mv', ex') \<Longrightarrow> proto_free mv \<Longrightarrow>
   proto_free mv' \<and>
   map_of ex' k =
     (if k \<in> set keys then
        (case resolved k es of
           Some (f, os) \<Rightarrow> Some (f\<lparr>won := True\<rparr> # os)
         | None \<Rightarrow> map_of ex k)
      else map_of ex k) \<and>
   map_of (own_props mv') k =
     (if k \<in> set keys \<and> k \<noteq> ''__proto__'' then
        (case resolved k es of
           Some (f, os) \<Rightarrow> Some (exp_value f)
         | None \<Rightarrow> map_of (own_props mv) k)
      else map_of (own_props mv) k)"
proof (induction keys arbitrary: mv ex)
  case Nil
  then show ?case by simp
next
  case (Cons key keys)
  from Cons.prems obtain cs where cs: "explanationsForKey key es = Inr cs"
    by (auto split: sum.splits)
  show ?case
  proof (cases "sort_explanations cs")
    case Nil
    with Cons.prems cs have "merge_loop keys es (mv, ex) = Inr (mv', ex')" by simp
    from Cons.IH[OF this Cons.prems(2)] cs Nil show ?thesis by (auto simp: resolved_def)
  next
    case (Cons f os)
    with Cons.prems(1) cs obtain mv1 where
      set: "set_property mv key (exp_value f) = Inr mv1" and
      loop: "merge_loop keys es (mv1, AList.update key (f\<lparr>won := True\<rparr> # os) ex) =
               Inr (mv', ex')"
      by (auto split: sum.splits)
    note own = set_property_own[OF set Cons.prems(2)]
    from Cons.IH[OF loop own(1)] own(2)[of k] cs Cons show ?thesis
      by (auto simp: resolved_def update_conv' split: option.splits)
  qed
qed

lemma merge_entry:
  assumes "merge es = Inr m" and "map_of (e_explanations m) k = Some l"
  shows "\<exists>cs f os. explanationsForKey k es = Inr cs \<and> sort_explanations cs = f # os \<and>
           l = f\<lparr>won := True\<rparr> # os \<and> proto_free (e_value m) \<and>
           (k \<noteq> ''__proto__'' \<longrightarrow> map_of (own_props (e_value m)) k = Some (exp_value f)) \<and>
           k \<in> set (allKeys es)"
proof -
  from assms(1) obtain mv ex where
    loop: "merge_loop (allKeys es) es (JObj [], []) = Inr (mv, ex)" and
    m: "m = \<lparr>e_value = mv, e_explanations = ex\<rparr>"
    by (auto simp: merge_def split: sum.splits)
  have start: "proto_free (JObj [])" by (simp add: proto_free_def)
  note maps = merge_loop_maps[OF loop start, of k]
  from assms(2) m have l: "map_of ex k = Some l" by simp
  with maps have in_keys: "k \<in> set (allKeys es)" by (auto split: if_splits)
  with maps l obtain f os where
    r: "resolved k es = Some (f, os)" and l': "l = f\<lparr>won := True\<rparr> # os" and
    v: "k \<noteq> ''__proto__'' \<longrightarrow> map_of (own_props mv) k = Some (exp_value f)"
    by (auto split: option.splits)
  from r obtain cs where "explanationsForKey k es = Inr cs" "sort_explanations cs = f # os"
    by (auto simp: resolved_def split: sum.splits list.splits)
  with l' v m in_keys maps show ?thesis by auto
qed


lemma merge_entry_flags:
  assumes "merge es = Inr m" and "map_of (e_explanations m) k = Some l"
  shows "filter won l = [hd l]" and "won (hd l)"
proof -
  from merge_entry[OF assms] obtain cs f os where
    cs: "explanationsForKey k es = Inr cs" and
    s: "sort_explanations cs = f # os" and
    l: "l = f\<lparr>won := True\<rparr> # os"
    by blast
  have "set os \<subseteq> set cs"
    using s by (metis set_sort_explanations set_subset_Cons)
  moreover have "\<forall>c\<in>set cs. \<not> won c"
    using explanationsForKey_filter[OF cs] by auto
  ultimately have "filter won os = []"
    by (auto simp: filter_empty_conv)
  with l show "filter won l = [hd l]" and "won (hd l)" by auto
qed

subsection \<open>The head of the stable sort\<close>

lemma sort_explanations_Cons:
  "sort_explanations (x # rest) = insort_explanation x (sort_explanations rest)"
  by (simp add: sort_explanations_def)

lemma compare_refl [simp]: "compare_explanations a a = 0"
  by (simp add: compare_explanations_def)

lemma compare_flip: "\<not> compare_explanations a b \<le> 0 \<Longrightarrow> compare_explanations b a < 0"
  by (auto simp: compare_explanations_def split: if_splits)

lemma compare_less_imp_le: "compare_explanations a b < 0 \<Longrightarrow> compare_explanations a b \<le> 0"
  by simp

lemma sort_head_first_least:
  "sort_explanations cs = f # os \<Longrightarrow>
   \<exists>pre post. cs = pre @ f # post \<and>
     (\<forall>c\<in>set pre. compare_explanations f c < 0) \<and>
     (\<forall>c\<in>set post. compare_explanations f c \<le> 0)"
proof (induction cs arbitrary: f os)
  case Nil
  then show ?case by simp
next
  case (Cons x rest)
  show ?case
  proof (cases "sort_explanations rest")
    case Nil
    then have "rest = []" by simp
    with Cons.prems have "f = x" by (simp add: sort_explanations_def)
    with \<open>rest = []\<close> have "x # rest = [] @ f # [] \<and>
        (\<forall>c\<in>set []. compare_explanations f c < 0) \<and>
        (\<forall>c\<in>set []. compare_explanations f c \<le> 0)" by simp
    then show ?thesis by blast
  next
    case (Cons g gs)
    from Cons.IH[OF this] obtain pre post where
      rest: "rest = pre @ g # post" and
      pre: "\<forall>c\<in>set pre. compare_explanations g c < 0" and
      post: "\<forall>c\<in>set post. compare_explanations g c \<le> 0"
      by blast
    have all: "\<forall>c\<in>set rest. compare_explanations g c \<le> 0"
      using rest pre post by (auto intro: compare_less_imp_le)
    show ?thesis
    proof (cases "compare_explanations x g \<le> 0")
      case True
      with Cons Cons.prems have "f = x" by (simp add: sort_explanations_Cons)
      moreover have "\<forall>c\<in>set rest. compare_explanations x c \<le> 0"
        using all True by (blast intro: compare_trans)
      ultimately have "x # rest = [] @ f # rest \<and> (\<forall>c\<in>set []. compare_explanations f c < 0) \<and>
          (\<forall>c\<in>set rest. compare_explanations f c \<le> 0)" by simp
      then show ?thesis by blast
    next
      case False
      with Cons Cons.prems have "f = g" by (simp add: sort_explanations_Cons)
      moreover from False have "compare_explanations g x < 0" by (rule compare_flip)
      ultimately have "x # rest = (x # pre) @ f # post \<and>
          (\<forall>c\<in>set (x # pre). compare_explanations f c < 0) \<and>
          (\<forall>c\<in>set post. compare_explanations f c \<le> 0)"
        using rest pre post by simp
      then show ?thesis by blast
    qed
  qed
qed

lemma map_filter_split:
  "map g (filter P es) = pre @ f # post \<Longrightarrow>
   \<exists>before e after. es = before @ e # after \<and> P e \<and> g e = f \<and>
     map g (filter P before) = pre \<and> map g (filter P after) = post"
proof (induction es arbitrary: pre)
  case Nil
  then show ?case by simp
next
  case (Cons a es)
  show ?case
  proof (cases "P a")
    case False
    with Cons.prems have "map g (filter P es) = pre @ f # post" by simp
    from Cons.IH[OF this] obtain before e after where
      "es = before @ e # after" "P e" "g e = f" "map g (filter P before) = pre"
      "map g (filter P after) = post" by blast
    with False have "a # es = (a # before) @ e # after \<and> P e \<and> g e = f \<and>
        map g (filter P (a # before)) = pre \<and> map g (filter P after) = post" by simp
    then show ?thesis by blast
  next
    case True
    show ?thesis
    proof (cases pre)
      case Nil
      with True Cons.prems have "a # es = [] @ a # es \<and> P a \<and> g a = f \<and>
          map g (filter P []) = pre \<and> map g (filter P es) = post" by simp
      then show ?thesis by blast
    next
      case (Cons p pre')
      with True Cons.prems have ga: "g a = p" and "map g (filter P es) = pre' @ f # post" by simp_all
      from Cons.IH[OF this(2)] obtain before e after where
        "es = before @ e # after" "P e" "g e = f" "map g (filter P before) = pre'"
        "map g (filter P after) = post" by blast
      with True ga Cons have "a # es = (a # before) @ e # after \<and> P e \<and> g e = f \<and>
          map g (filter P (a # before)) = pre \<and> map g (filter P after) = post" by simp
      then show ?thesis by blast
    qed
  qed
qed

lemma compare_less_iff:
  "compare_explanations f c < 0 \<longleftrightarrow>
   precedence c < precedence f \<or> (precedence c = precedence f \<and> timestamp f < timestamp c)"
  by (auto simp: compare_explanations_def)

lemma compare_le_iff:
  "compare_explanations f c \<le> 0 \<longleftrightarrow>
   precedence c < precedence f \<or> (precedence c = precedence f \<and> timestamp f \<le> timestamp c)"
  by (auto simp: compare_explanations_def)

lemma set_fold_add_key: "set (fold add_key ks acc) = set ks \<union> set acc"
  by (induction ks arbitrary: acc) (auto simp: add_key_def)

lemma set_allKeys_gen:
  "set (fold (\<lambda>e ks. if is_object (e_value e) then fold add_key (object_keys (e_value e)) ks else ks) es acc) =
   set acc \<union> (\<Union>e\<in>set es. if is_object (e_value e) then set (object_keys (e_value e)) else {})"
  by (induction es arbitrary: acc) (auto simp: set_fold_add_key)

lemma set_allKeys:
  "set (allKeys es) = (\<Union>e\<in>set es. if is_object (e_value e) then set (object_keys (e_value e)) else {})"
  by (simp add: allKeys_def set_allKeys_gen)

lemma candidate_fields [simp]:
  "precedence (candidate e key) = precedence (hd (explain e None False))"
  "timestamp (candidate e key) = timestamp (hd (explain e None False))"
  "exp_value (candidate e key) = get_property (e_value e) key"
  "source (candidate e key) = source (hd (explain e None False))"
  by (simp_all add: candidate_def Let_def)

lemma merge_winner_split:
  assumes "merge explaineds = Inr m" and "map_of (e_explanations m) key = Some es"
  shows "\<exists>before e after os. explaineds = before @ e # after \<and> competes e key \<and>
           es = (candidate e key)\<lparr>won := True\<rparr> # os \<and>
           (\<forall>x\<in>set before. competes x key \<longrightarrow>
              compare_explanations (candidate e key) (candidate x key) < 0) \<and>
           (\<forall>x\<in>set after. competes x key \<longrightarrow>
              compare_explanations (candidate e key) (candidate x key) \<le> 0)"
proof -
  from merge_entry[OF assms] obtain cs f os where
    cs: "explanationsForKey key explaineds = Inr cs" and
    s: "sort_explanations cs = f # os" and
    l: "es = f\<lparr>won := True\<rparr> # os"
    by blast
  from sort_head_first_least[OF s] obtain pre post where
    split: "cs = pre @ f # post" and
    pre: "\<forall>c\<in>set pre. compare_explanations f c < 0" and
    post: "\<forall>c\<in>set post. compare_explanations f c \<le> 0"
    by blast
  from explanationsForKey_filter[OF cs] split
  have "map (\<lambda>e. candidate e key) (filter (\<lambda>e. competes e key) explaineds) = pre @ f # post"
    by simp
  from map_filter_split[OF this] obtain before e after where
    e: "explaineds = before @ e # after" "competes e key" "candidate e key = f" and
    b: "map (\<lambda>e. candidate e key) (filter (\<lambda>e. competes e key) before) = pre" and
    a: "map (\<lambda>e. candidate e key) (filter (\<lambda>e. competes e key) after) = post"
    by blast
  have "\<forall>x\<in>set before. competes x key \<longrightarrow> compare_explanations f (candidate x key) < 0"
    using pre b by auto
  moreover have "\<forall>x\<in>set after. competes x key \<longrightarrow> compare_explanations f (candidate x key) \<le> 0"
    using post a by auto
  ultimately show ?thesis using e l by blast
qed

lemma root_timestamps_append:
  "root_timestamps (xs @ ys) = root_timestamps xs @ root_timestamps ys"
  by (simp add: root_timestamps_def)

lemma in_order_earlier:
  assumes "registered_in_order (before @ e # after)" and "x \<in> set before"
    and "competes x key" and "competes e key"
  shows "timestamp (candidate x key) \<le> timestamp (candidate e key)"
proof -
  from assms(3,4) have rx: "explain x None False \<noteq> []" and re: "explain e None False \<noteq> []"
    by (simp_all add: competes_def)
  from assms(2) rx have "timestamp (hd (explain x None False)) \<in> set (root_timestamps before)"
    by (auto simp: root_timestamps_def)
  moreover from re have "root_timestamps (e # after) = timestamp (hd (explain e None False)) # root_timestamps after"
    by (simp add: root_timestamps_def)
  ultimately show ?thesis
    using assms(1) by (simp add: registered_in_order_def root_timestamps_append sorted_append)
qed

lemma set_js_entries [simp]: "set (js_entries ps) = set ps"
  by (auto simp: js_entries_def)

lemma set_object_keys_obj [simp]: "set (object_keys (JObj ps)) = fst ` set ps"
  by simp

lemma object_facts:
  assumes "holds_object e"
  shows "truthy (e_value e)" "is_object (e_value e)"
    "has_property (e_value e) key =
       Inr (key \<in> set (object_keys (e_value e)) \<or> key \<in> set object_prototype_names)"
    "key \<notin> set object_prototype_names \<Longrightarrow> competes e key \<longleftrightarrow> contributes e key"
  using assms
  by (auto simp: holds_object_def competes_def contributes_def has_root_def split: jsval.splits)

lemma explanationsForKey_total:
  "\<forall>e\<in>set es. holds_object e \<Longrightarrow> \<exists>cs. explanationsForKey key es = Inr cs"
proof (induction es)
  case Nil
  then show ?case by simp
next
  case (Cons e es)
  then obtain cs where "explanationsForKey key es = Inr cs" by auto
  moreover from Cons.prems have "holds_object e" by simp
  ultimately show ?case
    by (auto simp: object_facts split: list.splits)
qed

lemma merge_loop_total:
  "(\<And>key. key \<in> set keys \<Longrightarrow> \<exists>cs. explanationsForKey key es = Inr cs) \<Longrightarrow>
   ''__proto__'' \<notin> set keys \<Longrightarrow>
   \<exists>ps' ex'. merge_loop keys es (JObj ps, ex) = Inr (JObj ps', ex')"
proof (induction keys arbitrary: ps ex)
  case Nil
  then show ?case by simp
next
  case (Cons key keys)
  from Cons.prems(1)[of key] obtain cs where cs: "explanationsForKey key es = Inr cs" by auto
  from Cons.prems(2) have key: "key \<noteq> ''__proto__''" and rest: "''__proto__'' \<notin> set keys"
    by auto
  have total: "\<And>k. k \<in> set keys \<Longrightarrow> \<exists>cs. explanationsForKey k es = Inr cs"
    using Cons.prems(1) by simp
  show ?case
  proof (cases "sort_explanations cs")
    case Nil
    with Cons.IH[OF total rest, of ps ex] cs show ?thesis by simp
  next
    case (Cons f os)
    with Cons.IH[OF total rest,
        of "AList.update key (exp_value f) ps" "AList.update key (f\<lparr>won := True\<rparr> # os) ex"]
      cs show ?thesis
      by (simp add: set_property_obj[OF key] del: set_property.simps)
  qed
qed

lemma unmark_sorted:
  assumes "sort_explanations cs = f # os" and "\<forall>c\<in>set cs. \<not> won c"
  shows "map (\<lambda>x. x\<lparr>won := False\<rparr>) (f\<lparr>won := True\<rparr> # os) = f # os"
proof -
  have "set (f # os) = set cs" using assms(1) by (metis set_sort_explanations)
  with assms(2) have "\<forall>c\<in>set (f # os). \<not> won c" by blast
  then have "\<forall>c\<in>set (f # os). c\<lparr>won := False\<rparr> = c" by auto
  then have "map (\<lambda>x. x\<lparr>won := False\<rparr>) (f # os) = f # os" by (simp add: map_idI)
  then show ?thesis by simp
qed

lemma object_candidates:
  assumes "\<forall>e\<in>set explaineds. holds_object e" and "key \<notin> set object_prototype_names"
  shows "explanationsForKey key explaineds =
           Inr (map (\<lambda>e. candidate e key) (filter (\<lambda>e. contributes e key) explaineds))"
proof -
  from explanationsForKey_total[OF assms(1)] obtain cs where
    cs: "explanationsForKey key explaineds = Inr cs" by blast
  have "filter (\<lambda>e. competes e key) explaineds = filter (\<lambda>e. contributes e key) explaineds"
    using assms by (intro filter_cong) (auto simp: object_facts(4))
  with explanationsForKey_filter[OF cs] cs show ?thesis by simp
qed

subsection \<open>The resolver\<close>

lemma explained_source_root:
  "explain (explained_source now s) None False =
     [\<lparr>source = src_name (cs_source s), exp_value = JObj (cs_data s),
       reason = reason_or_default (cs_source s), precedence = src_precedence (cs_source s),
       location = src_location (cs_source s), won = True, timestamp = now\<rparr>]"
  by (simp add: explained_source_def explained_from_def addExplanation_def explain_def
      root_path_def Let_def)

lemma explained_source_facts:
  "competes (explained_source now s) key \<longleftrightarrow> in_data s key"
  "precedence (candidate (explained_source now s) key) = src_precedence (cs_source s)"
  "timestamp (candidate (explained_source now s) key) = now"
  "e_value (explained_source now s) = JObj (cs_data s)"
proof -
  have v: "e_value (explained_source now s) = JObj (cs_data s)"
    by (simp add: explained_source_def explained_from_def addExplanation_def Let_def)
  then show "e_value (explained_source now s) = JObj (cs_data s)" .
  from v show "competes (explained_source now s) key \<longleftrightarrow> in_data s key"
    by (simp add: competes_def explained_source_root in_data_def)
  show "precedence (candidate (explained_source now s) key) = src_precedence (cs_source s)"
    by (simp add: explained_source_root)
  show "timestamp (candidate (explained_source now s) key) = now"
    by (simp add: explained_source_root)
qed

lemma explainedSources_split:
  "explainedSources clock i ss = wb @ w # wa \<Longrightarrow>
   \<exists>sb s sa. ss = sb @ s # sa \<and> wb = explainedSources clock i sb \<and>
     w = explained_source (clock (i + length sb)) s \<and>
     wa = explainedSources clock (Suc (i + length sb)) sa"
proof (induction ss arbitrary: i wb)
  case Nil
  then show ?case by simp
next
  case (Cons x ss)
  show ?case
  proof (cases wb)
    case Nil
    with Cons.prems show ?thesis
      by (intro exI[of _ "[]"] exI[of _ x] exI[of _ ss]) simp
  next
    case (Cons y ys)
    with Cons.prems have y: "y = explained_source (clock i) x"
      and rest: "explainedSources clock (Suc i) ss = ys @ w # wa" by simp_all
    from Cons.IH[OF rest] obtain sb s sa where
      "ss = sb @ s # sa" "ys = explainedSources clock (Suc i) sb"
      "w = explained_source (clock (Suc i + length sb)) s"
      "wa = explainedSources clock (Suc (Suc i + length sb)) sa" by blast
    with y Cons show ?thesis
      by (intro exI[of _ "x # sb"] exI[of _ s] exI[of _ sa]) simp
  qed
qed

lemma explainedSources_member:
  "x \<in> set ss \<Longrightarrow> \<exists>j. i \<le> j \<and> j < i + length ss \<and>
     explained_source (clock j) x \<in> set (explainedSources clock i ss)"
proof (induction ss arbitrary: i)
  case Nil
  then show ?case by simp
next
  case (Cons y ss)
  show ?case
  proof (cases "x = y")
    case True
    then show ?thesis by (intro exI[of _ i]) simp
  next
    case False
    with Cons.prems have "x \<in> set ss" by simp
    from Cons.IH[OF this, of "Suc i"] obtain j where
      "Suc i \<le> j" "j < Suc i + length ss"
      "explained_source (clock j) x \<in> set (explainedSources clock (Suc i) ss)" by blast
    then show ?thesis by (intro exI[of _ j]) simp
  qed
qed

text \<open>
  Through the resolver the wrappers are created in the order in which they are supplied
  to \<open>merge\<close>. When the readings of \<open>Date.now()\<close> never decrease, the winner of a
  field is the first registered of the sources of highest precedence for which
  \<open>key in data\<close> holds: every such source registered before it has a strictly lower
  precedence, and no such source registered after it has a higher one.
\<close>

lemma resolve_first_registered:
  assumes mono: "\<forall>i j. i \<le> j \<longrightarrow> clock i \<le> clock j"
    and res: "resolve clock sources = Inr m"
    and entry: "map_of (e_explanations m) key = Some es"
  shows "\<exists>before s after now os. sources = before @ s # after \<and> in_data s key \<and>
           es = (candidate (explained_source now s) key)\<lparr>won := True\<rparr> # os \<and>
           (\<forall>x\<in>set before. in_data x key \<longrightarrow>
              src_precedence (cs_source x) < src_precedence (cs_source s)) \<and>
           (\<forall>x\<in>set after. in_data x key \<longrightarrow>
              src_precedence (cs_source x) \<le> src_precedence (cs_source s))"
proof -
  let ?prec = "\<lambda>s. src_precedence (cs_source s)"
  let ?sorted = "sortedSources sources"
  have ne: "sources \<noteq> []"
  proof
    assume "sources = []"
    with res have "m = \<lparr>e_value = JObj [], e_explanations = []\<rparr>" by (simp add: resolve_def)
    with entry show False by simp
  qed
  with res have m: "merge (explainedSources clock 0 ?sorted) = Inr m"
    by (simp add: resolve_def)
  from merge_winner_split[OF m entry] obtain wb w wa os where
    split: "explainedSources clock 0 ?sorted = wb @ w # wa" and
    cw: "competes w key" and
    es: "es = (candidate w key)\<lparr>won := True\<rparr> # os" and
    lo: "\<forall>x\<in>set wb. competes x key \<longrightarrow>
           compare_explanations (candidate w key) (candidate x key) < 0" and
    hi: "\<forall>x\<in>set wa. competes x key \<longrightarrow>
           compare_explanations (candidate w key) (candidate x key) \<le> 0"
    by blast
  from explainedSources_split[OF split] obtain sb s sa where
    sorted: "?sorted = sb @ s # sa" and
    wb: "wb = explainedSources clock 0 sb" and
    w: "w = explained_source (clock (length sb)) s" and
    wa: "wa = explainedSources clock (Suc (length sb)) sa" by auto
  from cw w have hs: "in_data s key" by (simp add: explained_source_facts)
  have below: "?prec x < ?prec s" if x: "x \<in> set sb" and hx: "in_data x key" for x
  proof -
    from explainedSources_member[OF x, of 0 clock] obtain j where
      j: "j < length sb" and mem: "explained_source (clock j) x \<in> set wb"
      using wb by auto
    from lo mem hx have
      "compare_explanations (candidate w key) (candidate (explained_source (clock j) x) key) < 0"
      by (simp add: explained_source_facts)
    moreover from mono j have "clock j \<le> clock (length sb)" by simp
    ultimately show ?thesis
      by (simp add: compare_explanations_def w explained_source_root split: if_splits)
  qed
  have above: "?prec x \<le> ?prec s" if x: "x \<in> set sa" and hx: "in_data x key" for x
  proof -
    from explainedSources_member[OF x, of "Suc (length sb)" clock] obtain j where
      mem: "explained_source (clock j) x \<in> set wa"
      using wa by auto
    from hi mem hx have
      "compare_explanations (candidate w key) (candidate (explained_source (clock j) x) key) \<le> 0"
      by (simp add: explained_source_facts)
    then show ?thesis
      by (simp add: compare_explanations_def w explained_source_root split: if_splits)
  qed
  let ?Q = "\<lambda>x. in_data x key \<and> ?prec x = ?prec s"
  have "filter ?Q sb = []"
    using below by (fastforce simp: filter_empty_conv)
  with sorted hs have "filter ?Q ?sorted = s # filter ?Q sa" by simp
  moreover have "filter ?Q ?sorted = filter ?Q sources"
  proof -
    have "filter (\<lambda>x. ?prec x = ?prec s) ?sorted = filter (\<lambda>x. ?prec x = ?prec s) sources"
      unfolding sortedSources_def by (rule sort_key_stable)
    then have "filter (\<lambda>x. in_data x key) (filter (\<lambda>x. ?prec x = ?prec s) ?sorted) =
               filter (\<lambda>x. in_data x key) (filter (\<lambda>x. ?prec x = ?prec s) sources)"
      by simp
    then show ?thesis by (simp add: conj_commute)
  qed
  ultimately have "filter ?Q sources = s # filter ?Q sa" by simp
  then obtain before after where
    src: "sources = before @ s # after" and
    none: "\<forall>u\<in>set before. \<not> ?Q u"
    by (auto simp: filter_eq_Cons_iff)
  have all: "?prec x \<le> ?prec s" if x: "x \<in> set sources" and hx: "in_data x key" for x
  proof -
    have "set sources = set ?sorted" by (simp add: sortedSources_def)
    with x sorted have "x \<in> set sb \<or> x = s \<or> x \<in> set sa" by auto
    with below above hx show ?thesis by fastforce
  qed
  have b: "\<forall>x\<in>set before. in_data x key \<longrightarrow> ?prec x < ?prec s"
  proof (intro ballI impI)
    fix x assume x: "x \<in> set before" and hx: "in_data x key"
    with src all[of x] have "?prec x \<le> ?prec s" by simp
    moreover from none x hx have "?prec x \<noteq> ?prec s" by blast
    ultimately show "?prec x < ?prec s" by simp
  qed
  have a: "\<forall>x\<in>set after. in_data x key \<longrightarrow> ?prec x \<le> ?prec s"
    using src all by simp
  from src hs es w b a show ?thesis by blast
qed

subsection \<open>The worked scenario, evaluated\<close>

lemma scenario_merge:
  "merge [scenario_defaults, scenario_env, scenario_cli] = Inr scenario_merged"
  by code_simp


lemma tick_merge: "merge [tick_first, tick_second] = Inr tick_merged"
  by code_simp

lemma tick_value_entry: "map_of (e_explanations tick_merged) ''value'' = Some tick_entry"
  by (simp add: tick_merged_def)

lemma tick_in_order: "registered_in_order [tick_first, tick_second]"
  by code_simp

lemma tie_sources_resolve:
  "winners (resolve (\<lambda>i. 1000) tie_sources) ''value'' = [(''first'', JNum 1)]"
  by code_simp

subsection \<open>Single winner\<close>




subsection \<open>Precedence ordering\<close>




subsection \<open>Tie-break\<close>

text \<open>
  Claim C3, as stated, lets the source registered first win every precedence tie, the
  same way on every run, and has the engine stamp the candidates from its own
  non-decreasing counter. The engine copies each candidate's timestamp from the root
  entry of its input, stamped by \<open>Date.now()\<close> when the wrapper was created. First
  conjunct: \<open>first\<close> is supplied first but was created after \<open>second\<close>, and
  \<open>second\<close> wins. Second and third conjunct: when the two wrappers are created within
  one clock tick the supply order decides, whichever was created first; so the same two
  sources supplied in the same order have two outcomes, \<open>second\<close> and \<open>first\<close>,
  that differ only by the clock readings.
\<close>

theorem first_registered_wins_counterexample:
  "winners (merge [tie_first, tie_second]) ''value'' = [(''second'', JNum 2)] \<and>
   winners (merge [tick_first, tick_second]) ''value'' = [(''first'', JNum 1)] \<and>
   winners (merge [tick_second, tick_first]) ''value'' = [(''second'', JNum 2)]"
  by code_simp

text \<open>
  Claim C3, amended. The winner of a field is a competing source such that every
  competitor supplied before it has a strictly lower precedence or, at equal
  precedence, a strictly later root timestamp, and every competitor supplied after it
  has a strictly lower precedence or, at equal precedence, a root timestamp that is not
  earlier. So at equal precedence the earliest root timestamp wins, and at equal
  timestamps the source supplied first. When the root timestamps never decrease along
  the supply order, every competitor supplied before the winner has a strictly lower
  precedence: the first supplied of the top-precedence competitors wins. The result is
  a function of the input list.
\<close>

theorem merge_tie_break:
  assumes "merge explaineds = Inr m" and "map_of (e_explanations m) key = Some es"
  shows "\<exists>before e after. explaineds = before @ e # after \<and> competes e key \<and>
           filter won es = [(candidate e key)\<lparr>won := True\<rparr>] \<and>
           (\<forall>x\<in>set before. competes x key \<longrightarrow>
              precedence (candidate x key) < precedence (candidate e key) \<or>
              (precedence (candidate x key) = precedence (candidate e key) \<and>
               timestamp (candidate e key) < timestamp (candidate x key))) \<and>
           (\<forall>x\<in>set after. competes x key \<longrightarrow>
              precedence (candidate x key) < precedence (candidate e key) \<or>
              (precedence (candidate x key) = precedence (candidate e key) \<and>
               timestamp (candidate e key) \<le> timestamp (candidate x key))) \<and>
           (registered_in_order explaineds \<longrightarrow>
              (\<forall>x\<in>set before. competes x key \<longrightarrow>
                 precedence (candidate x key) < precedence (candidate e key)))"
proof -
  from merge_winner_split[OF assms] obtain before e after os where
    e: "explaineds = before @ e # after" "competes e key" and
    l: "es = (candidate e key)\<lparr>won := True\<rparr> # os" and
    b: "\<forall>x\<in>set before. competes x key \<longrightarrow>
          compare_explanations (candidate e key) (candidate x key) < 0" and
    a: "\<forall>x\<in>set after. competes x key \<longrightarrow>
          compare_explanations (candidate e key) (candidate x key) \<le> 0"
    by blast
  from merge_entry_flags[OF assms] l
  have w: "filter won es = [(candidate e key)\<lparr>won := True\<rparr>]" by simp
  have b': "\<forall>x\<in>set before. competes x key \<longrightarrow>
              precedence (candidate x key) < precedence (candidate e key) \<or>
              (precedence (candidate x key) = precedence (candidate e key) \<and>
               timestamp (candidate e key) < timestamp (candidate x key))"
    using b unfolding compare_less_iff .
  have a': "\<forall>x\<in>set after. competes x key \<longrightarrow>
              precedence (candidate x key) < precedence (candidate e key) \<or>
              (precedence (candidate x key) = precedence (candidate e key) \<and>
               timestamp (candidate e key) \<le> timestamp (candidate x key))"
    using a unfolding compare_le_iff .
  have o: "registered_in_order explaineds \<longrightarrow>
              (\<forall>x\<in>set before. competes x key \<longrightarrow>
                 precedence (candidate x key) < precedence (candidate e key))"
  proof (intro impI ballI)
    fix x
    assume ord: "registered_in_order explaineds" and x: "x \<in> set before" "competes x key"
    from in_order_earlier[OF ord[unfolded e(1)] x e(2)]
    have "timestamp (candidate x key) \<le> timestamp (candidate e key)" .
    with b' x show "precedence (candidate x key) < precedence (candidate e key)" by force
  qed
  from e w b' a' o show ?thesis by blast
qed

theorem merge_tie_break_witness:
  "merge [tick_first, tick_second] = Inr tick_merged \<and>
   map_of (e_explanations tick_merged) ''value'' = Some tick_entry \<and>
   registered_in_order [tick_first, tick_second] \<and>
   (\<exists>before e after. [tick_first, tick_second] = before @ e # after \<and>
      competes e ''value'' \<and>
      filter won tick_entry = [(candidate e ''value'')\<lparr>won := True\<rparr>] \<and>
      (\<forall>x\<in>set before. competes x ''value'' \<longrightarrow>
         precedence (candidate x ''value'') < precedence (candidate e ''value'') \<or>
         (precedence (candidate x ''value'') = precedence (candidate e ''value'') \<and>
          timestamp (candidate e ''value'') < timestamp (candidate x ''value''))) \<and>
      (\<forall>x\<in>set after. competes x ''value'' \<longrightarrow>
         precedence (candidate x ''value'') < precedence (candidate e ''value'') \<or>
         (precedence (candidate x ''value'') = precedence (candidate e ''value'') \<and>
          timestamp (candidate e ''value'') \<le> timestamp (candidate x ''value''))) \<and>
      (registered_in_order [tick_first, tick_second] \<longrightarrow>
         (\<forall>x\<in>set before. competes x ''value'' \<longrightarrow>
            precedence (candidate x ''value'') < precedence (candidate e ''value''))))"
  using merge_tie_break[OF tick_merge tick_value_entry] tick_merge tick_value_entry
    tick_in_order
  by blast

subsection \<open>Union of keys\<close>

text \<open>
  Claim C4, as stated: the key set of the merged value is the union of the key sets of
  all inputs, and a field present in only one source takes that source's value. First
  conjunct: a wrapper built by the constructor alone has no root entry; the guard
  \<open>rootExplanations.length > 0\<close> keeps it from competing, so its keys are collected
  but never set: merged with the defaults, \<open>new Explained({ debug: true })\<close> leaves
  no \<open>debug\<close> field. Second conjunct: the guard \<open>key in value\<close> also holds for a
  member the value inherits; only the first source owns \<open>constructor\<close>, but the second
  competes with the inherited \<open>Object\<close> and wins.
\<close>

theorem union_of_all_inputs_counterexample:
  "merged_keys (merge [scenario_defaults, rootless_input]) = Some [''port'', ''host''] \<and>
   object_keys (e_value rootless_input) = [''debug''] \<and>
   winners (merge [own_constructor, scenario_env]) ''constructor'' =
     [(''env'', JNative ObjectConstructor)]"
  by code_simp

text \<open>
  Claim C4, amended. When every input wraps a plain object none of whose keys is a
  member name of \<open>Object.prototype\<close>, the merge returns a plain object, and the key
  set of the merged value is the union of the key sets of the inputs that have a root
  entry; a field held by exactly one such input takes that input's value; and the
  Explanations recorded for a field are exactly the sorted candidates of the inputs
  with a root entry that hold the field, so an input that lacks the field does not
  compete for it.
\<close>

theorem merge_union_of_keys:
  assumes "\<forall>e\<in>set explaineds. holds_object e \<and> ordinary_keys e"
  shows "\<exists>m mergedValue. merge explaineds = Inr m \<and> e_value m = JObj mergedValue \<and>
           set (map fst mergedValue) =
             (\<Union>e\<in>set (filter has_root explaineds). set (object_keys (e_value e))) \<and>
           (\<forall>key e. filter (\<lambda>x. contributes x key) explaineds = [e] \<longrightarrow>
              map_of mergedValue key = Some (get_property (e_value e) key)) \<and>
           (\<forall>key es. map_of (e_explanations m) key = Some es \<longrightarrow>
              map (\<lambda>x. x\<lparr>won := False\<rparr>) es =
                sort_explanations
                  (map (\<lambda>e. candidate e key) (filter (\<lambda>e. contributes e key) explaineds)))"
proof -
  let ?cands = "\<lambda>key. map (\<lambda>e. candidate e key) (filter (\<lambda>e. contributes e key) explaineds)"
  let ?held = "\<Union>e\<in>set (filter has_root explaineds). set (object_keys (e_value e))"
  from assms have objects: "\<forall>e\<in>set explaineds. holds_object e" by simp
  have keys: "set (allKeys explaineds) = (\<Union>e\<in>set explaineds. set (object_keys (e_value e)))"
    using objects by (auto simp: set_allKeys object_facts(2))
  have ordinary: "key \<notin> set object_prototype_names" if "key \<in> set (allKeys explaineds)" for key
    using that keys assms by (auto simp: ordinary_keys_def)
  have no_proto: "''__proto__'' \<notin> set (allKeys explaineds)"
    using ordinary[of "''__proto__''"] by (auto simp: object_prototype_names_def)
  have cands: "explanationsForKey key explaineds = Inr (?cands key)"
    if "key \<in> set (allKeys explaineds)" for key
    by (rule object_candidates[OF objects ordinary[OF that]])
  have "\<exists>ps' ex'. merge_loop (allKeys explaineds) explaineds (JObj [], []) = Inr (JObj ps', ex')"
    by (rule merge_loop_total) (use cands no_proto in auto)
  then obtain mv ex where
    loop: "merge_loop (allKeys explaineds) explaineds (JObj [], []) = Inr (JObj mv, ex)"
    by blast
  define m where "m = \<lparr>e_value = JObj mv, e_explanations = ex\<rparr>"
  have m: "merge explaineds = Inr m"
    by (simp add: merge_def loop m_def)
  have start: "proto_free (JObj [])" by (simp add: proto_free_def)
  note maps = merge_loop_maps[OF loop start]
  have held: "?cands key \<noteq> [] \<longleftrightarrow> key \<in> ?held" for key
    by (auto simp: filter_empty_conv contributes_def)
  have sub: "key \<in> set (allKeys explaineds)" if "key \<in> ?held" for key
    using that keys by auto
  have value_at: "map_of mv key =
      (if key \<in> ?held then Some (exp_value (hd (sort_explanations (?cands key)))) else None)"
    for key
  proof (cases "key \<in> set (allKeys explaineds)")
    case False
    with sub[of key] have "key \<notin> ?held" by blast
    with maps[of key] False show ?thesis by simp
  next
    case in_keys: True
    then have key: "key \<noteq> ''__proto__''" using no_proto by auto
    show ?thesis
    proof (cases "key \<in> ?held")
      case False
      then have "?cands key = []" using held[of key] by blast
      then have "resolved key explaineds = None"
        by (simp add: resolved_def cands[OF in_keys])
      with maps[of key] False in_keys key show ?thesis by simp
    next
      case True
      then have "?cands key \<noteq> []" using held[of key] by blast
      then obtain f os where "sort_explanations (?cands key) = f # os"
        by (cases "sort_explanations (?cands key)") auto
      with maps[of key] True in_keys key show ?thesis
        by (simp add: resolved_def cands[OF in_keys])
    qed
  qed
  have c1: "set (map fst mv) = ?held"
  proof -
    have "fst ` set mv = dom (map_of mv)" by (simp add: dom_map_of_conv_image_fst)
    also have "\<dots> = ?held"
      using value_at by (auto simp: dom_def split: if_splits)
    finally show ?thesis by simp
  qed
  have c2: "map_of mv key = Some (get_property (e_value e) key)"
    if one: "filter (\<lambda>x. contributes x key) explaineds = [e]" for key e
  proof -
    from one have "?cands key \<noteq> []" by simp
    then have "key \<in> ?held" using held[of key] by blast
    with value_at[of key] one show ?thesis
      by (simp add: sort_explanations_def)
  qed
  have c3: "map (\<lambda>x. x\<lparr>won := False\<rparr>) es = sort_explanations (?cands key)"
    if entry: "map_of (e_explanations m) key = Some es" for key es
  proof -
    from merge_entry[OF m entry] obtain cs f os where
      cs: "explanationsForKey key explaineds = Inr cs" and
      s0: "sort_explanations cs = f # os" and l: "es = f\<lparr>won := True\<rparr> # os" and
      in_keys: "key \<in> set (allKeys explaineds)"
      by blast
    from cs cands[OF in_keys] have "cs = ?cands key" by simp
    with s0 have s: "sort_explanations (?cands key) = f # os" by simp
    have "\<forall>c\<in>set (?cands key). \<not> won c" by auto
    from unmark_sorted[OF s this] l s show ?thesis by simp
  qed
  from m c1 c2 c3 show ?thesis
    unfolding m_def by (intro exI[of _ m] exI[of _ mv]) (simp add: m_def)
qed

theorem merge_union_of_keys_witness:
  "holds_object scenario_defaults \<and> ordinary_keys scenario_defaults \<and>
   holds_object rootless_input \<and> ordinary_keys rootless_input \<and>
   holds_object scenario_env \<and> ordinary_keys scenario_env \<and>
   (\<exists>m mergedValue.
      merge [scenario_defaults, rootless_input, scenario_env] = Inr m \<and>
      e_value m = JObj mergedValue \<and>
      set (map fst mergedValue) =
        (\<Union>e\<in>set (filter has_root [scenario_defaults, rootless_input, scenario_env]).
           set (object_keys (e_value e))) \<and>
      (\<forall>key e. filter (\<lambda>x. contributes x key)
                  [scenario_defaults, rootless_input, scenario_env] = [e] \<longrightarrow>
         map_of mergedValue key = Some (get_property (e_value e) key)) \<and>
      (\<forall>key es. map_of (e_explanations m) key = Some es \<longrightarrow>
         map (\<lambda>x. x\<lparr>won := False\<rparr>) es =
           sort_explanations
             (map (\<lambda>e. candidate e key)
                (filter (\<lambda>e. contributes e key)
                   [scenario_defaults, rootless_input, scenario_env]))))"
proof -
  have obj: "holds_object scenario_defaults" "holds_object rootless_input"
    "holds_object scenario_env"
    by code_simp+
  have ord: "ordinary_keys scenario_defaults" "ordinary_keys rootless_input"
    "ordinary_keys scenario_env"
    by code_simp+
  from obj ord have "\<forall>e\<in>set [scenario_defaults, rootless_input, scenario_env].
      holds_object e \<and> ordinary_keys e" by simp
  from merge_union_of_keys[OF this] obj ord show ?thesis by blast
qed

subsection \<open>The count in the JSON snapshot\<close>

text \<open>
  Claim C6. \<open>toJSON\<close> returns the value, the ledger and the metadata, with
  \<open>resolvedAt\<close> the clock reading; but \<open>sourcesCount\<close> is the size of the ledger
  map, the number of paths. The merged scenario records three sources under two
  paths, and the snapshot reports 2.
\<close>

theorem toJSON_counts_paths:
  "merge [scenario_defaults, scenario_env, scenario_cli] = Inr scenario_merged \<and>
   sourcesCount (r_metadata (toJSON scenario_merged now)) = 2 \<and>
   length (recorded_sources scenario_merged) = 3 \<and>
   resolvedAt (r_metadata (toJSON scenario_merged now)) = now"
  using scenario_merge
  by (simp add: toJSON_def recorded_sources_def scenario_merged_def scenario_port_def
      scenario_host_def scenario_port_cli_def scenario_port_env_def scenario_port_defaults_def)

subsection \<open>Inputs that are not objects\<close>

text \<open>
  Claim C10. The first loop of \<open>merge\<close> skips every value that is not a non-null
  object; the second loop guards with truthiness only, so a truthy primitive reaches
  the \<open>in\<close> operator, which throws. Merging the defaults with a wrapper around the
  number 5 fails with a \<open>TypeError\<close>.
\<close>

theorem merge_truthy_primitive_throws:
  "merge [scenario_defaults, primitive_input] = Inl TypeError"
  by code_simp

section \<open>Properties of the extends chain\<close>

subsection \<open>What a returned chain satisfies\<close>

lemma chain_ok_Nil [simp]: "chain_ok h b v [] v"
  by (simp add: chain_ok_def)

lemma chain_ok_append:
  assumes "chain_ok h b1 v0 c1 v1" and "chain_ok h b2 v1 c2 v2" and "b1 \<le> b" and "b2 \<le> b"
  shows "chain_ok h b v0 (c1 @ c2) v2"
proof -
  from assms(1) have a: "v0 \<subseteq> v1" "set (map res_path c1) = v1 - v0" "distinct (map res_path c1)"
    and a4: "\<forall>r\<in>set c1. res_precedence r \<le> b1 \<and> read_json h (res_path r) = Some (res_config r) \<and>
        (\<exists>ext. config_extends (res_config r) = Inr ext) \<and>
        (\<forall>q\<in>set (config_parents (res_config r)).
           \<exists>p'\<in>v1. resolve_reference h q (dirname h (res_path r)) = Inr p')"
    by (simp_all add: chain_ok_def)
  from assms(2) have b: "v1 \<subseteq> v2" "set (map res_path c2) = v2 - v1" "distinct (map res_path c2)"
    and b4: "\<forall>r\<in>set c2. res_precedence r \<le> b2 \<and> read_json h (res_path r) = Some (res_config r) \<and>
        (\<exists>ext. config_extends (res_config r) = Inr ext) \<and>
        (\<forall>q\<in>set (config_parents (res_config r)).
           \<exists>p'\<in>v2. resolve_reference h q (dirname h (res_path r)) = Inr p')"
    by (simp_all add: chain_ok_def)
  have 1: "v0 \<subseteq> v2" using a(1) b(1) by blast
  have 2: "set (map res_path (c1 @ c2)) = v2 - v0"
    using a(1,2) b(1,2) by auto
  have 3: "distinct (map res_path (c1 @ c2))"
    using a(2,3) b(2,3) by auto
  have 4: "\<forall>r\<in>set (c1 @ c2). res_precedence r \<le> b \<and> read_json h (res_path r) = Some (res_config r) \<and>
        (\<exists>ext. config_extends (res_config r) = Inr ext) \<and>
        (\<forall>q\<in>set (config_parents (res_config r)).
           \<exists>p'\<in>v2. resolve_reference h q (dirname h (res_path r)) = Inr p')"
  proof
    fix r assume "r \<in> set (c1 @ c2)"
    then consider "r \<in> set c1" | "r \<in> set c2" by auto
    then show "res_precedence r \<le> b \<and> read_json h (res_path r) = Some (res_config r) \<and>
        (\<exists>ext. config_extends (res_config r) = Inr ext) \<and>
        (\<forall>q\<in>set (config_parents (res_config r)).
           \<exists>p'\<in>v2. resolve_reference h q (dirname h (res_path r)) = Inr p')"
    proof cases
      case 1
      with a4 b(1) assms(3) show ?thesis by (meson order_trans subsetD)
    next
      case 2
      with b4 assms(4) show ?thesis by (meson order_trans)
    qed
  qed
  from 1 2 3 4 show ?thesis unfolding chain_ok_def by blast
qed

lemma parent_precedence_below: "i < len \<Longrightarrow> parent_precedence prec len i \<le> prec - 1"
  by (simp add: parent_precedence_def)

lemma extends_forEach_ok:
  assumes rec: "\<And>q p v ch v'. recur q p v = Some (Inr (ch, v')) \<Longrightarrow>
      chain_ok h p v ch v' \<and> (\<exists>p'\<in>v'. resolve_reference h q dir = Inr p')"
  shows "extends_forEach recur prec len i qs visited chain = Some (Inr (out, vis')) \<Longrightarrow>
     i + length qs = len \<Longrightarrow>
     \<exists>ext. out = chain @ ext \<and> chain_ok h (prec - 1) visited ext vis' \<and>
       (\<forall>q\<in>set qs. \<exists>p'\<in>vis'. resolve_reference h q dir = Inr p')"
proof (induction qs arbitrary: i visited chain)
  case Nil
  then show ?case by simp
next
  case (Cons q qs)
  from Cons.prems(1) obtain ch1 v1 where
    sub: "recur q (parent_precedence prec len i) visited = Some (Inr (ch1, v1))" and
    rest: "extends_forEach recur prec len (Suc i) qs v1 (chain @ ch1) = Some (Inr (out, vis'))"
    by (auto split: option.splits sum.splits)
  from rec[OF sub] obtain p1 where
    ok1: "chain_ok h (parent_precedence prec len i) visited ch1 v1" and
    p1: "p1 \<in> v1" "resolve_reference h q dir = Inr p1"
    by blast
  from Cons.prems(2) have "Suc i + length qs = len" and lt: "i < len" by simp_all
  from Cons.IH[OF rest this(1)] obtain ext2 where
    out: "out = (chain @ ch1) @ ext2" and
    ok2: "chain_ok h (prec - 1) v1 ext2 vis'" and
    qs: "\<forall>q\<in>set qs. \<exists>p'\<in>vis'. resolve_reference h q dir = Inr p'"
    by blast
  have ok: "chain_ok h (prec - 1) visited (ch1 @ ext2) vis'"
    by (rule chain_ok_append[OF ok1 ok2 parent_precedence_below[OF lt]]) simp
  from ok2 have "v1 \<subseteq> vis'" by (simp add: chain_ok_def)
  with p1 have "\<exists>p'\<in>vis'. resolve_reference h q dir = Inr p'" by blast
  with out ok qs show ?case by auto
qed

lemma loadTSConfig_Inr: "loadTSConfig h p = Inr c \<longleftrightarrow> read_json h p = Some c"
  by (auto simp: loadTSConfig_def split: option.splits)

lemma config_parents_Inr: "config_extends c = Inr ext \<Longrightarrow> config_parents c = extendsArray ext"
  by (simp add: config_parents_def)

lemma walk_steps:
  assumes "resolveTSConfigChain h (Suc fuel) cp bd prec visited = Some (Inr (ch, vis'))"
    and "resolveTSConfigPath h cp bd = Inr fullPath" and "fullPath \<notin> visited"
  shows "\<exists>config ext.
     read_json h fullPath = Some config \<and> (\<exists>ev. config_extends config = Inr ev) \<and>
     extends_forEach
       (\<lambda>extendPath p v.
          case extendPath of
            JStr s \<Rightarrow> resolveTSConfigChain h fuel s (dirname h fullPath) p v
          | _ \<Rightarrow> Some (Inl TypeError))
       prec (length (config_parents config)) 0 (config_parents config)
       (insert fullPath visited) [] = Some (Inr (ext, vis')) \<and>
     ch = ext @ [\<lparr>res_path = fullPath, res_config = config, res_precedence = prec\<rparr>]"
proof (cases "read_json h fullPath")
  case None
  with assms show ?thesis by (simp add: loadTSConfig_def)
next
  case (Some config)
  show ?thesis
  proof (cases "config_extends config")
    case (Inl e)
    with assms Some show ?thesis by (simp add: loadTSConfig_def)
  next
    case (Inr ev)
    with assms Some show ?thesis
      by (auto simp: loadTSConfig_def config_parents_def split: sum.splits option.splits)
  qed
qed

lemma resolveTSConfigChain_ok:
  "resolveTSConfigChain h fuel cp bd prec visited = Some (Inr (ch, vis')) \<Longrightarrow>
   chain_ok h prec visited ch vis' \<and> (\<exists>p'\<in>vis'. resolveTSConfigPath h cp bd = Inr p') \<and>
   ((ch = [] \<and> vis' = visited) \<or>
    (\<exists>ext p c. ch = ext @ [\<lparr>res_path = p, res_config = c, res_precedence = prec\<rparr>] \<and>
       resolveTSConfigPath h cp bd = Inr p \<and> p \<notin> visited \<and>
       (\<forall>r\<in>set ext. res_precedence r < prec)))"
proof (induction fuel arbitrary: cp bd prec visited ch vis')
  case 0
  then show ?case by simp
next
  case (Suc fuel)
  from Suc.prems obtain fullPath where
    fp: "resolveTSConfigPath h cp bd = Inr fullPath"
    by (auto split: sum.splits)
  show ?case
  proof (cases "fullPath \<in> visited")
    case True
    with Suc.prems fp show ?thesis by auto
  next
    case False
    let ?recur = "\<lambda>extendPath p v.
          case extendPath of
            JStr s \<Rightarrow> resolveTSConfigChain h fuel s (dirname h fullPath) p v
          | _ \<Rightarrow> Some (Inl TypeError)"
    from walk_steps[OF Suc.prems fp False] obtain config ext where
      cfg: "read_json h fullPath = Some config" and
      ce: "\<exists>ev. config_extends config = Inr ev" and
      run: "extends_forEach ?recur prec (length (config_parents config)) 0
              (config_parents config) (insert fullPath visited) [] = Some (Inr (ext, vis'))" and
      ch: "ch = ext @ [\<lparr>res_path = fullPath, res_config = config, res_precedence = prec\<rparr>]"
      by blast
    have rec: "chain_ok h p v c v' \<and> (\<exists>p'\<in>v'. resolve_reference h q (dirname h fullPath) = Inr p')"
      if "?recur q p v = Some (Inr (c, v'))" for q p v c v'
    proof (cases q)
      case (JStr s)
      with that Suc.IH[of s "dirname h fullPath" p v c v'] show ?thesis by simp
    qed (use that in simp_all)
    from extends_forEach_ok[of ?recur h "dirname h fullPath", OF rec run]
    have ok: "chain_ok h (prec - 1) (insert fullPath visited) ext vis'" and
      parents: "\<forall>q\<in>set (config_parents config).
         \<exists>p'\<in>vis'. resolve_reference h q (dirname h fullPath) = Inr p'"
      by auto
    from ok have sub: "insert fullPath visited \<subseteq> vis'" by (simp add: chain_ok_def)
    have all: "chain_ok h prec visited ch vis'"
      unfolding ch chain_ok_def
      using ok False cfg ce parents sub unfolding chain_ok_def
      by (auto simp: less_le_not_le)
    have low: "\<forall>r\<in>set ext. res_precedence r < prec"
      using ok by (auto simp: chain_ok_def)
    from all fp sub ch False low show ?thesis by auto
  qed
qed

subsection \<open>Termination\<close>

lemma resolveTSConfigChain_grows:
  "resolveTSConfigChain h fuel cp bd prec visited = Some (Inr (ch, vis')) \<Longrightarrow> visited \<subseteq> vis'"
  using resolveTSConfigChain_ok[of h fuel cp bd prec visited ch vis'] by (simp add: chain_ok_def)

lemma extends_forEach_terminates:
  assumes "\<And>q p v. V \<subseteq> v \<Longrightarrow> recur q p v \<noteq> None"
    and "\<And>q p v c v'. recur q p v = Some (Inr (c, v')) \<Longrightarrow> v \<subseteq> v'"
  shows "V \<subseteq> visited \<Longrightarrow> extends_forEach recur prec len i qs visited chain \<noteq> None"
proof (induction qs arbitrary: i visited chain)
  case Nil
  then show ?case by simp
next
  case (Cons q qs)
  from assms(1)[OF Cons.prems] obtain r where r: "recur q (parent_precedence prec len i) visited = Some r"
    by blast
  show ?case
  proof (cases r)
    case (Inl e)
    with r show ?thesis by simp
  next
    case (Inr pair)
    obtain c v' where pair: "pair = (c, v')" by (cases pair)
    with r Inr have sub: "recur q (parent_precedence prec len i) visited = Some (Inr (c, v'))" by simp
    from assms(2)[OF sub] Cons.prems have "V \<subseteq> v'" by blast
    from Cons.IH[OF this] sub show ?thesis by simp
  qed
qed

lemma resolveTSConfigChain_terminates:
  assumes "finite U" and lands: "\<And>q d p. resolveTSConfigPath h q d = Inr p \<Longrightarrow> p \<in> U"
  shows "card (U - visited) < fuel \<Longrightarrow> resolveTSConfigChain h fuel cp bd prec visited \<noteq> None"
proof (induction fuel arbitrary: cp bd prec visited)
  case 0
  then show ?case by simp
next
  case (Suc fuel)
  show ?case
  proof (cases "resolveTSConfigPath h cp bd")
    case (Inl e)
    then show ?thesis by simp
  next
    case (Inr fullPath)
    show ?thesis
    proof (cases "fullPath \<in> visited")
      case True
      with Inr show ?thesis by simp
    next
      case False
      let ?recur = "\<lambda>extendPath p v.
          case extendPath of
            JStr s \<Rightarrow> resolveTSConfigChain h fuel s (dirname h fullPath) p v
          | _ \<Rightarrow> Some (Inl TypeError)"
      from lands[OF Inr] False have "fullPath \<in> U - visited" by simp
      then have "U - insert fullPath visited \<subset> U - visited" by blast
      with assms(1) have "card (U - insert fullPath visited) < card (U - visited)"
        by (intro psubset_card_mono) auto
      with Suc.prems have small: "card (U - insert fullPath visited) < fuel" by simp
      have rec: "?recur q p v \<noteq> None" if "insert fullPath visited \<subseteq> v" for q p v
      proof (cases q)
        case (JStr s)
        from that have "U - v \<subseteq> U - insert fullPath visited" by blast
        with assms(1) have "card (U - v) \<le> card (U - insert fullPath visited)"
          by (intro card_mono) auto
        with small have "card (U - v) < fuel" by simp
        from Suc.IH[OF this] JStr show ?thesis by simp
      qed simp_all
      have grows: "v \<subseteq> v'" if "?recur q p v = Some (Inr (c, v'))" for q p v c v'
      proof (cases q)
        case (JStr s)
        with that resolveTSConfigChain_grows show ?thesis by simp
      qed (use that in simp_all)
      have run: "extends_forEach ?recur prec len 0 qs (insert fullPath visited) [] \<noteq> None"
        for len qs
        by (rule extends_forEach_terminates[where V = "insert fullPath visited"])
           (use rec grows in auto)
      show ?thesis
      proof (cases "loadTSConfig h fullPath")
        case (Inl e)
        with Inr False show ?thesis by simp
      next
        case cfg: (Inr config)
        show ?thesis
        proof (cases "config_extends config")
          case (Inl e)
          with Inr False cfg show ?thesis by simp
        next
          case ext: (Inr ev)
          from run[of "length (extendsArray ev)" "extendsArray ev"] Inr False cfg ext
          show ?thesis by (auto split: option.splits sum.splits)
        qed
      qed
    qed
  qed
qed

subsection \<open>Errors\<close>

lemma resolve_error_location:
  "resolveTSConfigPath h q d = Inl e \<Longrightarrow> error_location e = Some q"
  by (auto simp: resolveTSConfigPath_def Let_def split: if_splits option.splits)

lemma reference_error:
  "resolve_reference h q d = Inl e \<Longrightarrow>
   (case q of JStr s \<Rightarrow> error_location e = Some s | _ \<Rightarrow> e = TypeError)"
  by (cases q) (auto dest: resolve_error_location)

lemma reachable_via_parent:
  assumes "resolveTSConfigPath h cp bd = Inr fullPath" and "read_json h fullPath = Some config"
    and "JStr s \<in> set (config_parents config)"
  shows "reachable h s (dirname h fullPath) p \<Longrightarrow> reachable h cp bd p"
proof (induction rule: reachable.induct)
  case (entry p)
  have "reachable h cp bd fullPath" using assms(1) by (rule reachable.entry)
  from reachable.parent[OF this assms(2,3), of p] entry show ?case by simp
next
  case (parent p c q' p')
  then show ?case by (meson reachable.parent)
qed

lemma failure_via_parent:
  assumes "resolveTSConfigPath h cp bd = Inr fullPath" and "read_json h fullPath = Some config"
    and "JStr s \<in> set (config_parents config)"
    and "failure_at h s (dirname h fullPath) e"
  shows "failure_at h cp bd e"
proof -
  from assms(4) consider
    (a) "resolveTSConfigPath h s (dirname h fullPath) = Inl e" "error_location e = Some s" |
    (b) p where "reachable h s (dirname h fullPath) p"
      "(read_json h p = None \<and> e = FailedToParse p) \<or>
       (\<exists>c. read_json h p = Some c \<and>
          (config_extends c = Inl e \<or>
           (\<exists>q\<in>set (config_parents c). resolve_reference h q (dirname h p) = Inl e \<and>
              (case q of JStr s \<Rightarrow> error_location e = Some s | _ \<Rightarrow> e = TypeError))))"
    unfolding failure_at_def by blast
  then show ?thesis
  proof cases
    case a
    have r: "reachable h cp bd fullPath" using assms(1) by (rule reachable.entry)
    from a have "resolve_reference h (JStr s) (dirname h fullPath) = Inl e \<and>
        (case JStr s of JStr s \<Rightarrow> error_location e = Some s | _ \<Rightarrow> e = TypeError)" by simp
    with r assms(2,3) show ?thesis unfolding failure_at_def by blast
  next
    case b
    from reachable_via_parent[OF assms(1-3) b(1)] b(2) show ?thesis
      unfolding failure_at_def by blast
  qed
qed

lemma extends_forEach_error:
  assumes "\<And>q p v. recur q p v = Some (Inl e) \<Longrightarrow> P q"
  shows "extends_forEach recur prec len i qs visited chain = Some (Inl e) \<Longrightarrow> \<exists>q\<in>set qs. P q"
proof (induction qs arbitrary: i visited chain)
  case Nil
  then show ?case by simp
next
  case (Cons q qs)
  show ?case
  proof (cases "recur q (parent_precedence prec len i) visited")
    case None
    with Cons.prems show ?thesis by simp
  next
    case (Some r)
    show ?thesis
    proof (cases r)
      case (Inl e')
      with Some Cons.prems have "e' = e" by simp
      with Some Inl assms show ?thesis by auto
    next
      case (Inr pair)
      obtain c v' where "pair = (c, v')" by (cases pair)
      with Some Inr Cons.prems have
        "extends_forEach recur prec len (Suc i) qs v' (chain @ c) = Some (Inl e)" by simp
      from Cons.IH[OF this] show ?thesis by auto
    qed
  qed
qed

lemma resolveTSConfigChain_error:
  "resolveTSConfigChain h fuel cp bd prec visited = Some (Inl e) \<Longrightarrow> failure_at h cp bd e"
proof (induction fuel arbitrary: cp bd prec visited)
  case 0
  then show ?case by simp
next
  case (Suc fuel)
  show ?case
  proof (cases "resolveTSConfigPath h cp bd")
    case (Inl e')
    with Suc.prems have "e' = e" by simp
    with Inl resolve_error_location[of h cp bd e] show ?thesis by (simp add: failure_at_def)
  next
    case (Inr fullPath)
    with Suc.prems have nv: "fullPath \<notin> visited" by (auto split: if_splits)
    have here: "reachable h cp bd fullPath" using Inr by (rule reachable.entry)
    show ?thesis
    proof (cases "read_json h fullPath")
      case None
      with Suc.prems Inr nv have "e = FailedToParse fullPath"
        by (simp add: loadTSConfig_def)
      with None here show ?thesis
        unfolding failure_at_def by blast
    next
      case (Some config)
      then have cfg: "loadTSConfig h fullPath = Inr config" by (simp add: loadTSConfig_def)
      show ?thesis
      proof (cases "config_extends config")
        case (Inl e')
        with Suc.prems Inr nv cfg have "e' = e" by simp
        with Inl Some here show ?thesis unfolding failure_at_def by blast
      next
        case ext: (Inr ev)
        let ?recur = "\<lambda>extendPath p v.
          case extendPath of
            JStr s \<Rightarrow> resolveTSConfigChain h fuel s (dirname h fullPath) p v
          | _ \<Rightarrow> Some (Inl TypeError)"
        let ?P = "\<lambda>q. case q of JStr s \<Rightarrow> failure_at h s (dirname h fullPath) e
                              | _ \<Rightarrow> e = TypeError"
        from Suc.prems Inr nv cfg ext have run:
          "extends_forEach ?recur prec (length (extendsArray ev)) 0
             (extendsArray ev) (insert fullPath visited) [] = Some (Inl e)"
          by (auto split: option.splits sum.splits)
        have rec: "?P q" if "?recur q p v = Some (Inl e)" for q p v
        proof (cases q)
          case (JStr s)
          with that Suc.IH[of s "dirname h fullPath" p v] show ?thesis by simp
        qed (use that in simp_all)
        have "\<exists>q\<in>set (extendsArray ev). ?P q"
          by (rule extends_forEach_error[where recur = "?recur" and e = e, OF _ run])
             (rule rec)
        then obtain q where q: "q \<in> set (extendsArray ev)" "?P q" by blast
        from q(1) ext have member: "q \<in> set (config_parents config)"
          by (simp add: config_parents_def)
        show ?thesis
        proof (cases q)
          case (JStr s)
          with q(2) member failure_via_parent[OF Inr Some] show ?thesis by simp
        next
          case JUndefined
          with q(2) member Some here show ?thesis unfolding failure_at_def by force
        next
          case JNull
          with q(2) member Some here show ?thesis unfolding failure_at_def by force
        next
          case (JBool b)
          with q(2) member Some here show ?thesis unfolding failure_at_def by force
        next
          case (JNum n)
          with q(2) member Some here show ?thesis unfolding failure_at_def by force
        next
          case (JArr xs)
          with q(2) member Some here show ?thesis unfolding failure_at_def by force
        next
          case (JObj ps)
          with q(2) member Some here show ?thesis unfolding failure_at_def by force
        next
          case (JProto p ps)
          with q(2) member Some here show ?thesis unfolding failure_at_def by force
        next
          case (JNative n)
          with q(2) member Some here show ?thesis unfolding failure_at_def by force
        qed
      qed
    qed
  qed
qed

lemma reachable_in_visited:
  assumes "resolveTSConfigChain h fuel cp bd prec {} = Some (Inr (ch, vis))"
  shows "reachable h cp bd p \<Longrightarrow>
         p \<in> vis \<and> (\<exists>c. read_json h p = Some c \<and> (\<exists>ext. config_extends c = Inr ext) \<and>
           (\<forall>q\<in>set (config_parents c).
              \<exists>p'\<in>vis. resolve_reference h q (dirname h p) = Inr p'))"
proof (induction rule: reachable.induct)
  case (entry p)
  from resolveTSConfigChain_ok[OF assms] entry have "p \<in> vis" by auto
  moreover from resolveTSConfigChain_ok[OF assms] have ok: "chain_ok h prec {} ch vis" by simp
  ultimately obtain r where "r \<in> set ch" "res_path r = p"
    unfolding chain_ok_def by (metis Diff_empty imageE list.set_map)
  with ok \<open>p \<in> vis\<close> show ?case unfolding chain_ok_def by blast
next
  case (parent p c q p')
  from parent.IH parent.hyps(2,3,4) have "p' \<in> vis" by force
  moreover from resolveTSConfigChain_ok[OF assms] have ok: "chain_ok h prec {} ch vis" by simp
  ultimately obtain r where "r \<in> set ch" "res_path r = p'"
    unfolding chain_ok_def by (metis Diff_empty imageE list.set_map)
  with ok \<open>p' \<in> vis\<close> show ?case unfolding chain_ok_def by blast
qed

lemma success_excludes_failure:
  assumes "resolveTSConfigChain h fuel cp bd prec {} = Some (Inr (ch, vis))"
  shows "\<not> failure_at h cp bd e"
proof
  assume "failure_at h cp bd e"
  then consider
    (a) "resolveTSConfigPath h cp bd = Inl e" |
    (b) p where "reachable h cp bd p" "read_json h p = None" |
    (c) p c where "reachable h cp bd p" "read_json h p = Some c" "config_extends c = Inl e" |
    (d) p c q where "reachable h cp bd p" "read_json h p = Some c"
      "q \<in> set (config_parents c)" "resolve_reference h q (dirname h p) = Inl e"
    unfolding failure_at_def by blast
  then show False
  proof cases
    case a
    with resolveTSConfigChain_ok[OF assms] show False by auto
  next
    case b
    with reachable_in_visited[OF assms b(1)] show False by auto
  next
    case c
    with reachable_in_visited[OF assms c(1)] show False by auto
  next
    case d
    with reachable_in_visited[OF assms d(1)] show False by force
  qed
qed

lemma located_failure:
  assumes "failure_at h cp bd e" and "well_formed_walk h cp bd"
  shows "\<exists>loc. error_location e = Some loc"
proof -
  from assms(1) consider
    (a) "error_location e = Some cp" |
    (b) p where "e = FailedToParse p" |
    (c) p c where "reachable h cp bd p" "read_json h p = Some c" "config_extends c = Inl e" |
    (d) p c q where "reachable h cp bd p" "read_json h p = Some c"
      "q \<in> set (config_parents c)"
      "case q of JStr s \<Rightarrow> error_location e = Some s | _ \<Rightarrow> e = TypeError"
    unfolding failure_at_def by blast
  then show ?thesis
  proof cases
    case a
    then show ?thesis by simp
  next
    case b
    then show ?thesis by simp
  next
    case c
    with assms(2) show ?thesis by (auto simp: well_formed_walk_def well_formed_def)
  next
    case d
    with assms(2) have "is_string q"
      by (auto simp: well_formed_walk_def well_formed_def list_all_iff)
    with d(4) show ?thesis by (cases q) simp_all
  qed
qed

subsection \<open>Where a precedence comes from\<close>




subsection \<open>The example hosts, evaluated\<close>

lemma toy_host_lands:
  "resolveTSConfigPath (toy_host files) q d = Inr p \<Longrightarrow> p \<in> set (map fst files)"
  by (auto simp: resolveTSConfigPath_def toy_host_def Let_def split: if_splits)

lemma toy_host_reachable:
  "reachable (toy_host files) cp bd p \<Longrightarrow> p \<in> set (map fst files)"
proof (induction rule: reachable.induct)
  case (entry p)
  then show ?case by (rule toy_host_lands)
next
  case (parent p c q p')
  from parent.hyps(4) show ?case
    by (cases q) (auto dest: toy_host_lands)
qed


lemma cycle_universe:
  "finite (set (map fst cycle_files))" "card (set (map fst cycle_files)) < 3"
  by (simp_all add: cycle_files_def)

lemma broken_universe:
  "finite (set (map fst broken_files))" "card (set (map fst broken_files)) < 2"
  by (simp_all add: broken_files_def)

lemma broken_failure:
  "failure_at (toy_host broken_files) ''./tsconfig.json'' ''/'' (CannotFindFile ''./nonexistent.json'')"
proof -
  have "resolveTSConfigPath (toy_host broken_files) ''./tsconfig.json'' ''/'' = Inr ''/tsconfig.json''"
    by code_simp
  then have r: "reachable (toy_host broken_files) ''./tsconfig.json'' ''/'' ''/tsconfig.json''"
    by (rule reachable.entry)
  have c: "read_json (toy_host broken_files) ''/tsconfig.json'' =
      Some (JObj [(''extends'', JStr ''./nonexistent.json'')])"
    by code_simp
  have q: "JStr ''./nonexistent.json'' \<in>
      set (config_parents (JObj [(''extends'', JStr ''./nonexistent.json'')]))"
    by code_simp
  have e: "resolve_reference (toy_host broken_files) (JStr ''./nonexistent.json'')
      (dirname (toy_host broken_files) ''/tsconfig.json'') = Inl (CannotFindFile ''./nonexistent.json'')"
    by code_simp
  have l: "(case JStr ''./nonexistent.json'' of
              JStr s \<Rightarrow> error_location (CannotFindFile ''./nonexistent.json'') = Some s
            | _ \<Rightarrow> CannotFindFile ''./nonexistent.json'' = TypeError)"
    by simp
  from r c q e l show ?thesis unfolding failure_at_def by blast
qed

lemma broken_well_formed:
  "well_formed_walk (toy_host broken_files) ''./tsconfig.json'' ''/''"
  unfolding well_formed_walk_def
proof (intro allI impI)
  fix p c
  assume "reachable (toy_host broken_files) ''./tsconfig.json'' ''/'' p"
    and c: "read_json (toy_host broken_files) p = Some c"
  from toy_host_reachable[OF this(1)] have "p = ''/tsconfig.json''"
    by (simp add: broken_files_def)
  with c have "c = JObj [(''extends'', JStr ''./nonexistent.json'')]"
    by (simp add: toy_host_def broken_files_def)
  then show "well_formed c"
    by (simp add: well_formed_def config_parents_def)
qed

subsection \<open>Precedence assignment\<close>




subsection \<open>Cycle safety\<close>

text \<open>
  Claim C7. When the references of the host resolve into a finite set of locations,
  the walk returns for every fuel above the size of that set, whether or not the
  extends graph has a cycle; a chain it returns lists every location at most once; and
  it returns a chain unless some reference does not resolve, some reached document
  does not load, or reading \<open>extends\<close> of a reached document throws, so a cycle alone
  never makes it fail.
\<close>

theorem chain_cycle_safe:
  assumes "finite U" and "\<forall>q d p. resolveTSConfigPath h q d = Inr p \<longrightarrow> p \<in> U"
    and "card U < fuel"
  shows "\<exists>r. resolveTSConfigChain h fuel cp bd prec {} = Some r \<and>
           (\<forall>ch vis. r = Inr (ch, vis) \<longrightarrow> distinct (map res_path ch)) \<and>
           ((\<forall>e. \<not> failure_at h cp bd e) \<longrightarrow> (\<exists>ch vis. r = Inr (ch, vis)))"
proof -
  have "resolveTSConfigChain h fuel cp bd prec {} \<noteq> None"
    by (rule resolveTSConfigChain_terminates[of U]) (use assms in auto)
  then obtain r where r: "resolveTSConfigChain h fuel cp bd prec {} = Some r" by blast
  have d: "distinct (map res_path ch)" if "r = Inr (ch, vis)" for ch vis
    using resolveTSConfigChain_ok[of h fuel cp bd prec "{}" ch vis] r that
    by (simp add: chain_ok_def)
  have ok: "\<exists>ch vis. r = Inr (ch, vis)" if none: "\<forall>e. \<not> failure_at h cp bd e"
  proof (cases r)
    case (Inl e)
    with r resolveTSConfigChain_error[of h fuel cp bd prec "{}" e] none show ?thesis by simp
  next
    case (Inr pair)
    then show ?thesis by (cases pair) simp
  qed
  from r d ok show ?thesis by blast
qed

theorem chain_cycle_safe_witness:
  "finite (set (map fst cycle_files)) \<and> card (set (map fst cycle_files)) < 3 \<and>
   chain_summary (resolveTSConfigChain (toy_host cycle_files) 3 ''./a.json'' ''/'' 10 {}) =
     Some [(''/b.json'', 9), (''/a.json'', 10)] \<and>
   (\<exists>r. resolveTSConfigChain (toy_host cycle_files) 3 ''./a.json'' ''/'' 10 {} = Some r \<and>
      (\<forall>ch vis. r = Inr (ch, vis) \<longrightarrow> distinct (map res_path ch)) \<and>
      ((\<forall>e. \<not> failure_at (toy_host cycle_files) ''./a.json'' ''/'' e) \<longrightarrow>
         (\<exists>ch vis. r = Inr (ch, vis))))"
proof -
  have lands: "\<forall>q d p. resolveTSConfigPath (toy_host cycle_files) q d = Inr p \<longrightarrow>
      p \<in> set (map fst cycle_files)"
    using toy_host_lands by blast
  have run: "chain_summary (resolveTSConfigChain (toy_host cycle_files) 3 ''./a.json'' ''/'' 10 {}) =
     Some [(''/b.json'', 9), (''/a.json'', 10)]"
    by code_simp
  from chain_cycle_safe[OF cycle_universe(1) lands cycle_universe(2), of "''./a.json''" "''/''" 10]
    cycle_universe run
  show ?thesis by blast
qed

subsection \<open>Failures\<close>

text \<open>
  Claim C8, as stated, has every abort name the offending location. The loader returns
  what \<open>JSON.parse\<close> returned, unchecked. \<open>a.json\<close> extends \<open>n.json\<close> and
  \<open>missing.json\<close>; \<open>n.json\<close> holds \<open>null\<close>, and \<open>missing.json\<close> cannot be located.
  The walk reaches \<open>n.json\<close> first, reading \<open>extends\<close> of \<open>null\<close> throws, and the
  resolution aborts with a bare \<open>TypeError\<close> that names no location.
\<close>

theorem error_names_location_counterexample:
  "resolveTSConfigChain (toy_host null_files) 3 ''./a.json'' ''/'' 10 {} = Some (Inl TypeError) \<and>
   explainTSConfig (toy_host null_files) 3 (\<lambda>i. int i) ''./a.json'' ''/'' = Some (Inl TypeError) \<and>
   error_location TypeError = None \<and>
   resolveTSConfigPath (toy_host null_files) ''./missing.json'' ''/'' =
     Inl (CannotFindFile ''./missing.json'')"
  by code_simp

text \<open>
  Claim C8, amended. When the entry or some reference of a reached document cannot be
  resolved, a reached location cannot be loaded, or reading \<open>extends\<close> of a reached
  document throws, the walk returns an error and no chain, and so does
  \<open>explainTSConfig\<close>; the error is the one raised at such a failure. It names the
  reference or location of that failure whenever every reached document is
  well-formed, that is, is not \<open>null\<close> and lists only strings as parents.
\<close>

theorem chain_failure_aborts:
  assumes "finite U" and "\<forall>q d p. resolveTSConfigPath h q d = Inr p \<longrightarrow> p \<in> U"
    and "card U < fuel" and "failure_at h cp bd e0"
  shows "(\<exists>e. resolveTSConfigChain h fuel cp bd prec {} = Some (Inl e) \<and> failure_at h cp bd e \<and>
            (well_formed_walk h cp bd \<longrightarrow> (\<exists>loc. error_location e = Some loc))) \<and>
         (\<exists>e. explainTSConfig h fuel clock cp bd = Some (Inl e) \<and> failure_at h cp bd e \<and>
            (well_formed_walk h cp bd \<longrightarrow> (\<exists>loc. error_location e = Some loc)))"
proof -
  have aborts: "\<exists>e. resolveTSConfigChain h fuel cp bd p {} = Some (Inl e) \<and> failure_at h cp bd e \<and>
      (well_formed_walk h cp bd \<longrightarrow> (\<exists>loc. error_location e = Some loc))"
    for p
  proof -
    have "resolveTSConfigChain h fuel cp bd p {} \<noteq> None"
      by (rule resolveTSConfigChain_terminates[of U]) (use assms in auto)
    then obtain r where r: "resolveTSConfigChain h fuel cp bd p {} = Some r" by blast
    show ?thesis
    proof (cases r)
      case (Inl e)
      with r resolveTSConfigChain_error[of h fuel cp bd p "{}" e]
      have "failure_at h cp bd e" by simp
      with r Inl located_failure[of h cp bd e] show ?thesis by blast
    next
      case (Inr pair)
      obtain ch vis where "pair = (ch, vis)" by (cases pair)
      with r Inr success_excludes_failure[of h fuel cp bd p ch vis e0] assms(4)
      show ?thesis by simp
    qed
  qed
  from aborts[of 10] have "\<exists>e. explainTSConfig h fuel clock cp bd = Some (Inl e) \<and>
      failure_at h cp bd e \<and>
      (well_formed_walk h cp bd \<longrightarrow> (\<exists>loc. error_location e = Some loc))"
    by (auto simp: explainTSConfig_def)
  with aborts[of prec] show ?thesis by blast
qed

theorem chain_failure_aborts_witness:
  "finite (set (map fst broken_files)) \<and> card (set (map fst broken_files)) < 2 \<and>
   failure_at (toy_host broken_files) ''./tsconfig.json'' ''/''
     (CannotFindFile ''./nonexistent.json'') \<and>
   well_formed_walk (toy_host broken_files) ''./tsconfig.json'' ''/'' \<and>
   (\<exists>e. resolveTSConfigChain (toy_host broken_files) 2 ''./tsconfig.json'' ''/'' 10 {} =
           Some (Inl e) \<and>
         failure_at (toy_host broken_files) ''./tsconfig.json'' ''/'' e \<and>
         (\<exists>loc. error_location e = Some loc)) \<and>
   (\<exists>e. explainTSConfig (toy_host broken_files) 2 (\<lambda>i. int i) ''./tsconfig.json'' ''/'' =
           Some (Inl e) \<and>
         failure_at (toy_host broken_files) ''./tsconfig.json'' ''/'' e \<and>
         (\<exists>loc. error_location e = Some loc))"
proof -
  have lands: "\<forall>q d p. resolveTSConfigPath (toy_host broken_files) q d = Inr p \<longrightarrow>
      p \<in> set (map fst broken_files)"
    using toy_host_lands by blast
  from chain_failure_aborts[OF broken_universe(1) lands broken_universe(2) broken_failure,
      of 10 "\<lambda>i. int i"]
    broken_universe broken_failure broken_well_formed
  show ?thesis by blast
qed

section \<open>Flattening and unflattening\<close>

subsection \<open>Keys and paths\<close>




lemma leaf_no_dot: "leaf_key k \<Longrightarrow> CHR ''.'' \<notin> set k"
  by (simp add: leaf_key_def)















subsection \<open>Property lists\<close>






subsection \<open>The leaves of a document\<close>








subsection \<open>Flattening lists the leaves under their dotted keys\<close>


subsection \<open>Unflattening rebuilds the document from its leaves\<close>









subsection \<open>Round trip\<close>




end
